theory Spec2Isabelle
  imports Main "HOL-Library.Log_Nat"
begin

section \<open>Characters and whitespace\<close>

text \<open>
  A Python \<open>str\<close> is a sequence of code points. Here a string is a \<open>char list\<close> and a
  \<open>char\<close> stands for one code point below 256, so \<open>length\<close> counts what \<open>len\<close> counts.

  \<open>py_isspace\<close> is the whitespace class that \<open>\s\<close> (in a \<open>str\<close> pattern) and \<open>str.strip()\<close>
  share: the code points 9 to 13, 28 to 32, 0x85 and 0xA0.
\<close>

definition py_isspace :: "char \<Rightarrow> bool" where
  "py_isspace c =
     (let n = (of_char c :: nat)
      in (9 \<le> n \<and> n \<le> 13) \<or> (28 \<le> n \<and> n \<le> 32) \<or> n = 133 \<or> n = 160)"

text \<open>The character class \<open>[*_`]\<close> of \<open>clean_text\<close>.\<close>

definition is_markup :: "char \<Rightarrow> bool" where
  "is_markup c = (c = CHR ''*'' \<or> c = CHR ''_'' \<or> c = CHR 0x60)"

text \<open>\<open>str.strip()\<close> with no argument: whitespace is removed at both ends.\<close>

definition strip :: "string \<Rightarrow> string" where
  "strip s = rev (dropWhile py_isspace (rev (dropWhile py_isspace s)))"

section \<open>Text normalisation: \<open>clean_text\<close>\<close>

text \<open>
  \<^verbatim>\<open>
  def clean_text(text):
      if not text: return ""
      text = re.sub(r'[*_`]', '', text)
      text = re.sub(r'\s+', ' ', text).strip()
      return text
  \<close>
  \<open>re.sub(r'\s+', ' ', text)\<close> replaces every maximal run of whitespace by one space:
  \<open>collapse_ws\<close>. The argument is \<open>None\<close> or a string.
\<close>

function collapse_ws :: "string \<Rightarrow> string" where
  "collapse_ws [] = []"
| "collapse_ws (c # cs) =
     (if py_isspace c then CHR '' '' # collapse_ws (dropWhile py_isspace cs)
      else c # collapse_ws cs)"
  by pat_completeness auto
termination
  by (relation "measure length") (auto simp: le_imp_less_Suc length_dropWhile_le)

fun clean_text :: "string option \<Rightarrow> string" where
  "clean_text None = []"
| "clean_text (Some t) =
     (if t = [] then []
      else strip (collapse_ws (filter (\<lambda>c. \<not> is_markup c) t)))"

text \<open>
  The normal form of whitespace: every whitespace character is a space, and no two
  whitespace characters are adjacent.
\<close>

fun single_spaced :: "string \<Rightarrow> bool" where
  "single_spaced [] = True"
| "single_spaced [c] = (py_isspace c \<longrightarrow> c = CHR '' '')"
| "single_spaced (c # d # cs) =
     ((py_isspace c \<longrightarrow> c = CHR '' '' \<and> \<not> py_isspace d) \<and> single_spaced (d # cs))"

section \<open>The standard library's \<open>textwrap.wrap\<close>\<close>

text \<open>
  \<open>wrap_text\<close> calls \<open>textwrap.wrap(p, width=max_chars)\<close> with every other option at its
  default: \<open>expand_tabs\<close>, \<open>replace_whitespace\<close>, \<open>drop_whitespace\<close>, \<open>break_long_words\<close> and
  \<open>break_on_hyphens\<close> are on, \<open>fix_sentence_endings\<close> is off, both indents are empty and
  \<open>max_lines\<close> is \<open>None\<close>. The definitions below follow \<open>TextWrapper\<close> of CPython 3.11
  method by method for these options.
\<close>

datatype py_error = ValueError | ZeroDivisionError | OverflowError

text \<open>\<open>textwrap._whitespace = '\t\n\x0b\x0c\r '\<close>: the six ASCII whitespace characters.\<close>

definition tw_whitespace :: "char \<Rightarrow> bool" where
  "tw_whitespace c = (let n = (of_char c :: nat) in (9 \<le> n \<and> n \<le> 13) \<or> n = 32)"

text \<open>
  The classes of the pattern \<open>wordsep_re\<close> on code points below 256: \<open>\d\<close>, \<open>\w\<close>,
  \<open>letter = [^\d\W]\<close> and \<open>word_punct = [\w!"'&.,?]\<close>.
\<close>

definition re_digit :: "char \<Rightarrow> bool" where
  "re_digit c = (let n = (of_char c :: nat) in 48 \<le> n \<and> n \<le> 57)"

definition re_word :: "char \<Rightarrow> bool" where
  "re_word c =
     (let n = (of_char c :: nat)
      in (48 \<le> n \<and> n \<le> 57) \<or> (65 \<le> n \<and> n \<le> 90) \<or> n = 95 \<or> (97 \<le> n \<and> n \<le> 122)
         \<or> n = 170 \<or> n = 178 \<or> n = 179 \<or> n = 181 \<or> n = 185 \<or> n = 186
         \<or> (188 \<le> n \<and> n \<le> 190) \<or> (192 \<le> n \<and> n \<le> 214)
         \<or> (216 \<le> n \<and> n \<le> 246) \<or> (248 \<le> n \<and> n \<le> 255))"

definition re_letter :: "char \<Rightarrow> bool" where
  "re_letter c = (re_word c \<and> \<not> re_digit c)"

definition word_punct :: "char \<Rightarrow> bool" where
  "word_punct c =
     (re_word c \<or> c = CHR ''!'' \<or> c = CHR 0x22 \<or> c = CHR 0x27 \<or> c = CHR ''&''
      \<or> c = CHR ''.'' \<or> c = CHR '','' \<or> c = CHR ''?'')"

definition is_hyphen :: "char \<Rightarrow> bool" where
  "is_hyphen c = (c = CHR ''-'')"

subsection \<open>\<open>_munge_whitespace\<close>\<close>

text \<open>
  \<open>str.expandtabs(8)\<close>: a tab becomes one to eight spaces, up to the next multiple of 8
  of the column; the column restarts after a line feed or a carriage return.
\<close>

fun expandtabs :: "nat \<Rightarrow> string \<Rightarrow> string" where
  "expandtabs col [] = []"
| "expandtabs col (c # cs) =
     (if c = CHR 0x09
      then (let incr = 8 - col mod 8 in replicate incr (CHR '' '') @ expandtabs (col + incr) cs)
      else if c = CHR 0x0A \<or> c = CHR 0x0D then c # expandtabs 0 cs
      else c # expandtabs (col + 1) cs)"

definition munge_whitespace :: "string \<Rightarrow> string" where
  "munge_whitespace text =
     map (\<lambda>c. if tw_whitespace c then CHR '' '' else c) (expandtabs 0 text)"

subsection \<open>\<open>_split\<close>: the chunks of \<open>wordsep_re\<close>\<close>

text \<open>
  \<^verbatim>\<open>
  wordsep_re = ( ws+
               | (?<=wp) -{2,} (?=\w)
               | nws+? (?: -(?: (?<=lt{2}-) | (?<=lt-lt-)) (?= lt -? lt)
                         | (?=ws|\Z)
                         | (?<=wp) (?=-{2,}\w) ) )
  \<close>
  \<open>wordsep_re.split(text)\<close> with the empty strings removed is the list of the successive
  matches: at every position one of the three alternatives matches at least one
  character. A match is computed from \<open>prev\<close>, the text before the position in reverse
  (what the look-behinds read), and \<open>rest\<close>, the text from the position on.
\<close>

definition after_word_punct :: "string \<Rightarrow> bool" where
  \<comment> \<open>\<open>(?<=wp)\<close>\<close>
  "after_word_punct prev = (case prev of [] \<Rightarrow> False | a # _ \<Rightarrow> word_punct a)"

definition dashes_then_word :: "string \<Rightarrow> bool" where
  \<comment> \<open>\<open>-{2,}\<close> followed by \<open>\w\<close>\<close>
  "dashes_then_word rest =
     (2 \<le> length (takeWhile is_hyphen rest) \<and>
      (case dropWhile is_hyphen rest of [] \<Rightarrow> False | x # _ \<Rightarrow> re_word x))"

definition letters_before :: "string \<Rightarrow> bool" where
  \<comment> \<open>\<open>(?<=lt{2}-) | (?<=lt-lt-)\<close>, read just before the hyphen\<close>
  "letters_before prev =
     ((case prev of a # b # _ \<Rightarrow> re_letter a \<and> re_letter b | _ \<Rightarrow> False) \<or>
      (case prev of a # h # b # _ \<Rightarrow> re_letter a \<and> is_hyphen h \<and> re_letter b | _ \<Rightarrow> False))"

definition letters_after :: "string \<Rightarrow> bool" where
  \<comment> \<open>\<open>(?= lt -? lt)\<close>, read just after the hyphen\<close>
  "letters_after rest =
     (case rest of
        x # y # z # _ \<Rightarrow> re_letter x \<and> ((is_hyphen y \<and> re_letter z) \<or> re_letter y)
      | [x, y] \<Rightarrow> re_letter x \<and> re_letter y
      | _ \<Rightarrow> False)"

definition hyphen_break :: "string \<Rightarrow> string \<Rightarrow> bool" where
  "hyphen_break prev rest =
     (case rest of [] \<Rightarrow> False
      | h # after \<Rightarrow> is_hyphen h \<and> letters_before prev \<and> letters_after after)"

text \<open>
  The third alternative: \<open>nws+?\<close> is lazy, so after each character it has taken the three
  endings are tried in their order, and the first that succeeds ends the match. The
  function returns the length of the match.
\<close>

fun word_match :: "string \<Rightarrow> string \<Rightarrow> nat" where
  "word_match prev [] = 0"
| "word_match prev (c # cs) =
     (if hyphen_break (c # prev) cs then 2
      else if cs = [] \<or> tw_whitespace (hd cs) then 1
      else if after_word_punct (c # prev) \<and> dashes_then_word cs then 1
      else 1 + word_match (c # prev) cs)"

definition wordsep_match :: "string \<Rightarrow> string \<Rightarrow> nat" where
  "wordsep_match prev rest =
     (if tw_whitespace (hd rest) then length (takeWhile tw_whitespace rest)
      else if after_word_punct prev \<and> dashes_then_word rest
      then length (takeWhile is_hyphen rest)
      else word_match prev rest)"

lemma word_match_pos: "rest \<noteq> [] \<Longrightarrow> 0 < word_match prev rest"
  by (cases rest) auto

lemma wordsep_match_pos: "rest \<noteq> [] \<Longrightarrow> 0 < wordsep_match prev rest"
proof (cases rest)
  case Nil
  assume "rest \<noteq> []"
  with Nil show ?thesis by simp
next
  case (Cons c cs)
  show ?thesis
    using Cons word_match_pos[of rest prev]
    by (auto simp: wordsep_match_def dashes_then_word_def is_hyphen_def)
qed

function split_from :: "string \<Rightarrow> string \<Rightarrow> string list" where
  "split_from prev [] = []"
| "split_from prev (c # cs) =
     (let n = wordsep_match prev (c # cs)
      in take n (c # cs) # split_from (rev (take n (c # cs)) @ prev) (drop n (c # cs)))"
  by pat_completeness auto
termination
proof (relation "measure (\<lambda>(prev, rest). length rest)")
  show "wf (measure (\<lambda>(prev, rest). length rest))" by simp
next
  fix prev :: string and c cs n
  assume "n = wordsep_match prev (c # cs)"
  then have "0 < n" using wordsep_match_pos[of "c # cs" prev] by simp
  then show "((rev (take n (c # cs)) @ prev, drop n (c # cs)), prev, c # cs)
      \<in> measure (\<lambda>(prev, rest). length rest)" by simp
qed

definition split_chunks :: "string \<Rightarrow> string list" where
  "split_chunks text = split_from [] (munge_whitespace text)"

subsection \<open>\<open>_wrap_chunks\<close> and \<open>_handle_long_word\<close>\<close>

text \<open>
  The source reverses the chunk list and pops from its end; here the list stays in
  reading order and chunks are taken from its front.

  \<open>fill_line\<close> is the inner loop: chunks go to the current line while they fit.
\<close>

fun fill_line ::
  "nat \<Rightarrow> string list \<Rightarrow> nat \<Rightarrow> string list \<Rightarrow> string list \<times> nat \<times> string list" where
  "fill_line width cur_line cur_len [] = (cur_line, cur_len, [])"
| "fill_line width cur_line cur_len (c # cs) =
     (if cur_len + length c \<le> width
      then fill_line width (cur_line @ [c]) (cur_len + length c) cs
      else (cur_line, cur_len, c # cs))"

text \<open>\<open>chunk.rfind('-', 0, e)\<close>: the last index below \<open>e\<close> that holds a hyphen.\<close>

definition rfind_hyphen :: "string \<Rightarrow> nat \<Rightarrow> nat option" where
  "rfind_hyphen s e =
     (case filter (\<lambda>i. is_hyphen (s ! i)) (rev [0..<min e (length s)]) of
        [] \<Rightarrow> None | i # _ \<Rightarrow> Some i)"

text \<open>
  \<^verbatim>\<open>
  end = space_left
  chunk = reversed_chunks[-1]
  if self.break_on_hyphens and len(chunk) > space_left:
      hyphen = chunk.rfind('-', 0, space_left)
      if hyphen > 0 and any(c != '-' for c in chunk[:hyphen]):
          end = hyphen + 1
  \<close>
\<close>

definition break_point :: "string \<Rightarrow> nat \<Rightarrow> nat" where
  "break_point chunk space_left =
     (if space_left < length chunk
      then (case rfind_hyphen chunk space_left of
              None \<Rightarrow> space_left
            | Some hyphen \<Rightarrow>
                if 0 < hyphen \<and> list_ex (\<lambda>c. \<not> is_hyphen c) (take hyphen chunk)
                then hyphen + 1 else space_left)
      else space_left)"

text \<open>
  \<open>_handle_long_word\<close> with \<open>break_long_words\<close> on: the piece \<open>chunk[:end]\<close> goes to the
  line (also when it is empty) and \<open>chunk[end:]\<close> stays first in the list. It returns the
  chunk list and the current line.
\<close>

fun handle_long_word ::
  "string list \<Rightarrow> string list \<Rightarrow> nat \<Rightarrow> nat \<Rightarrow> string list \<times> string list" where
  "handle_long_word [] cur_line cur_len width = ([], cur_line)"
| "handle_long_word (chunk # rest) cur_line cur_len width =
     (let space_left = (if width < 1 then 1 else width - cur_len);
          e = break_point chunk space_left
      in (drop e chunk # rest, cur_line @ [take e chunk]))"

text \<open>
  One pass of the outer \<open>while chunks:\<close> loop, for a non-empty chunk list: the lines it
  appends (none or one) and the chunks it leaves. \<open>has_lines\<close> is the truth value of
  \<open>lines\<close>.
\<close>

definition wrap_line :: "nat \<Rightarrow> bool \<Rightarrow> string list \<Rightarrow> string list \<times> string list" where
  "wrap_line width has_lines chunks =
     (let chunks1 = (if strip (hd chunks) = [] \<and> has_lines then tl chunks else chunks);
          (cur_line, cur_len, chunks2) = fill_line width [] 0 chunks1;
          (chunks3, cur_line2) =
             (if chunks2 \<noteq> [] \<and> width < length (hd chunks2)
              then handle_long_word chunks2 cur_line cur_len width
              else (chunks2, cur_line));
          cur_line3 = (if cur_line2 \<noteq> [] \<and> strip (last cur_line2) = []
                       then butlast cur_line2 else cur_line2)
      in (if cur_line3 \<noteq> [] then [concat cur_line3] else [], chunks3))"

text \<open>Every pass takes at least one character or one chunk off the list.\<close>

definition chunk_weight :: "string list \<Rightarrow> nat" where
  "chunk_weight chunks = sum_list (map (\<lambda>c. Suc (length c)) chunks)"

lemma chunk_weight_Cons: "chunk_weight (c # cs) = Suc (length c) + chunk_weight cs"
  by (simp add: chunk_weight_def)

lemma fill_line_weight:
  "fill_line width cl len chunks = (cl', len', rest) \<Longrightarrow>
     (rest = chunks \<and> cl' = cl \<and> len' = len \<and>
        (chunks \<noteq> [] \<longrightarrow> width < len + length (hd chunks)))
     \<or> chunk_weight rest < chunk_weight chunks"
proof (induction chunks arbitrary: cl len)
  case Nil
  then show ?case by simp
next
  case (Cons c cs)
  show ?case
  proof (cases "len + length c \<le> width")
    case True
    with Cons.prems have "fill_line width (cl @ [c]) (len + length c) cs = (cl', len', rest)"
      by simp
    from Cons.IH[OF this] show ?thesis by (auto simp: chunk_weight_Cons)
  next
    case False
    with Cons.prems show ?thesis by auto
  qed
qed

lemma break_point_pos: "0 < space_left \<Longrightarrow> 0 < break_point chunk space_left"
  by (auto simp: break_point_def split: option.splits)

lemma handle_long_word_weight:
  "handle_long_word chunks cl len width = (chunks', cl') \<Longrightarrow>
     chunk_weight chunks' \<le> chunk_weight chunks"
  by (cases chunks) (auto simp: chunk_weight_Cons Let_def)

lemma handle_long_word_weight_strict:
  assumes "handle_long_word chunks cl 0 width = (chunks', cl')"
    and "chunks \<noteq> []" and "hd chunks \<noteq> []"
  shows "chunk_weight chunks' < chunk_weight chunks"
proof -
  from assms(2) obtain chunk rest where c: "chunks = chunk # rest" by (cases chunks) auto
  let ?sl = "if width < 1 then 1 else width - 0"
  have "0 < ?sl" by simp
  then have "0 < break_point chunk ?sl" by (rule break_point_pos)
  moreover from c assms(3) have "chunk \<noteq> []" by simp
  ultimately have "length (drop (break_point chunk ?sl) chunk) < length chunk" by simp
  with assms(1) c show ?thesis by (auto simp: chunk_weight_Cons Let_def)
qed

lemma wrap_line_weight:
  assumes "chunks \<noteq> []"
  shows "chunk_weight (snd (wrap_line width has_lines chunks)) < chunk_weight chunks"
proof -
  define chunks1 where
    "chunks1 = (if strip (hd chunks) = [] \<and> has_lines then tl chunks else chunks)"
  obtain cl len chunks2 where f: "fill_line width [] 0 chunks1 = (cl, len, chunks2)"
    by (cases "fill_line width [] 0 chunks1") auto
  define r where "r = (if chunks2 \<noteq> [] \<and> width < length (hd chunks2)
              then handle_long_word chunks2 cl len width else (chunks2, cl))"
  have snd_eq: "snd (wrap_line width has_lines chunks) = fst r"
    unfolding wrap_line_def Let_def chunks1_def[symmetric] f r_def
    by (simp add: case_prod_beta)
  have r_le: "chunk_weight (fst r) \<le> chunk_weight chunks2"
    unfolding r_def using handle_long_word_weight[of chunks2 cl len width]
    by (cases "handle_long_word chunks2 cl len width") auto
  have c1_le: "chunk_weight chunks1 \<le> chunk_weight chunks"
    using assms unfolding chunks1_def by (cases chunks) (auto simp: chunk_weight_Cons)
  from fill_line_weight[OF f] consider
    (same) "chunks2 = chunks1" "cl = []" "len = 0"
      "chunks1 \<noteq> [] \<longrightarrow> width < length (hd chunks1)"
    | (less) "chunk_weight chunks2 < chunk_weight chunks1" by auto
  then have "chunk_weight (fst r) < chunk_weight chunks"
  proof cases
    case less
    with r_le c1_le show ?thesis by simp
  next
    case same
    show ?thesis
    proof (cases "chunks1 = chunks")
      case False
      then have "chunks1 = tl chunks" unfolding chunks1_def by (auto split: if_splits)
      with assms have "chunk_weight chunks1 < chunk_weight chunks"
        by (cases chunks) (auto simp: chunk_weight_Cons)
      with r_le same(1) show ?thesis by simp
    next
      case True
      with same assms have w: "width < length (hd chunks)" and c2: "chunks2 = chunks"
        by auto
      then have ne: "hd chunks \<noteq> []" by auto
      obtain a b where h: "handle_long_word chunks [] 0 width = (a, b)"
        by (cases "handle_long_word chunks [] 0 width") auto
      from handle_long_word_weight_strict[OF h assms ne]
      show ?thesis unfolding r_def using w c2 same assms h by simp
    qed
  qed
  with snd_eq show ?thesis by simp
qed

function wrap_chunks_loop :: "nat \<Rightarrow> string list \<Rightarrow> string list \<Rightarrow> string list" where
  "wrap_chunks_loop width lines chunks =
     (if chunks = [] then lines
      else (let (new, rest) = wrap_line width (lines \<noteq> []) chunks
            in wrap_chunks_loop width (lines @ new) rest))"
  by pat_completeness auto
termination
proof (relation "measure (\<lambda>(width, lines, chunks). chunk_weight chunks)")
  show "wf (measure (\<lambda>(width, lines, chunks). chunk_weight chunks))" by simp
next
  fix width :: nat and lines chunks :: "string list" and x new rest
  assume ne: "chunks \<noteq> []" and x: "x = wrap_line width (lines \<noteq> []) chunks"
    and nr: "(new, rest) = x"
  from x nr have "rest = snd (wrap_line width (lines \<noteq> []) chunks)" by (metis snd_conv)
  with wrap_line_weight[OF ne] show "((width, lines @ new, rest), width, lines, chunks)
      \<in> measure (\<lambda>(width, lines, chunks). chunk_weight chunks)" by simp
qed

declare wrap_chunks_loop.simps [simp del]

text \<open>
  \<open>textwrap.wrap(text, width)\<close>: the chunks are computed first, then \<open>_wrap_chunks\<close>
  raises \<open>ValueError\<close> for a width that is not positive.
\<close>

definition tw_wrap :: "string \<Rightarrow> int \<Rightarrow> py_error + string list" where
  "tw_wrap text width =
     (let chunks = split_chunks text
      in if width \<le> 0 then Inl ValueError
         else Inr (wrap_chunks_loop (nat width) [] chunks))"

section \<open>The character budget: \<open>int(max_width / (avg_char_width * 0.9))\<close>\<close>

text \<open>
  Both operands are Python integers; the product and the quotient are IEEE 754 binary64
  operations, rounded to nearest with ties to even, and \<open>int\<close> truncates. A finite
  non-negative double is written as a pair \<open>(m, e)\<close> of integers, the number \<open>m * 2^e\<close>.

  \<open>round_ratio a b\<close> is the double nearest to \<open>a / b\<close> for positive \<open>a\<close> and \<open>b\<close>, with a
  mantissa of 53 bits and the exponent unbounded. Results are never subnormal where
  that matters: a product with 0.9 of a non-zero integer is at least 0.9, and a quotient
  below the normal range truncates to 0 however it is rounded.
\<close>

type_synonym dbl = "int \<times> int"

definition ratio_num :: "int \<Rightarrow> int \<Rightarrow> int" where
  \<comment> \<open>numerator of \<open>(a / b) / 2^e\<close>\<close>
  "ratio_num a e = a * 2 ^ nat (- e)"

definition ratio_den :: "int \<Rightarrow> int \<Rightarrow> int" where
  \<comment> \<open>denominator of \<open>(a / b) / 2^e\<close>\<close>
  "ratio_den b e = b * 2 ^ nat e"

definition round_ratio :: "int \<Rightarrow> int \<Rightarrow> dbl" where
  "round_ratio a b =
     (if a = 0 then (0, 0)
      else
       (let e0 = bitlen a - bitlen b - 53;
            e = (if ratio_den b e0 * 2 ^ 53 \<le> ratio_num a e0 then e0 + 1 else e0);
            n = ratio_num a e;
            d = ratio_den b e;
            m = n div d;
            r = n mod d
        in (if d < 2 * r \<or> (2 * r = d \<and> odd m) then m + 1 else m, e)))"

definition dbl_shift :: "dbl \<Rightarrow> int \<Rightarrow> dbl" where
  "dbl_shift x k = (fst x, snd x + k)"

definition dbl_of_int :: "int \<Rightarrow> dbl" where
  "dbl_of_int n = round_ratio n 1"

definition dbl_mult :: "dbl \<Rightarrow> dbl \<Rightarrow> dbl" where
  "dbl_mult x y = dbl_shift (round_ratio (fst x * fst y) 1) (snd x + snd y)"

definition dbl_div :: "dbl \<Rightarrow> dbl \<Rightarrow> dbl" where
  "dbl_div x y = dbl_shift (round_ratio (fst x) (fst y)) (snd x - snd y)"

text \<open>
  A rounded result of \<open>2^1024\<close> or more is beyond the doubles: converting such an
  integer raises \<open>OverflowError\<close>, and such a quotient is \<open>inf\<close>, on which \<open>int\<close> raises
  \<open>OverflowError\<close>.
\<close>

definition dbl_overflow :: "dbl \<Rightarrow> bool" where
  "dbl_overflow x = (ratio_den 1 (- snd x) * 2 ^ 1024 \<le> ratio_num (fst x) (- snd x))"

definition dbl_trunc :: "dbl \<Rightarrow> int" where
  "dbl_trunc x = ratio_num (fst x) (- snd x) div ratio_den 1 (- snd x)"

text \<open>The literal \<open>0.9\<close> is the double \<open>0x1.ccccccccccccdp-1\<close>.\<close>

definition dbl_0_9 :: dbl where
  "dbl_0_9 = (8106479329266893, - 53)"

text \<open>
  \<open>max_chars max_width avg_char_width\<close> is \<open>int(max_width / (avg_char_width * 0.9))\<close>.
  Signs are taken out first (rounding and truncation are symmetric). A zero
  \<open>avg_char_width\<close> makes the divisor \<open>0.0\<close>: \<open>ZeroDivisionError\<close>.
\<close>

definition max_chars :: "int \<Rightarrow> int \<Rightarrow> py_error + int" where
  "max_chars max_width avg_char_width =
     (let a = dbl_of_int \<bar>avg_char_width\<bar>
      in if dbl_overflow a then Inl OverflowError
         else
          (let y = dbl_mult a dbl_0_9;
               w = dbl_of_int \<bar>max_width\<bar>
           in if dbl_overflow w then Inl OverflowError
              else if fst y = 0 then Inl ZeroDivisionError
              else
               (let z = dbl_div w y
                in if dbl_overflow z then Inl OverflowError
                   else Inr (sgn max_width * sgn avg_char_width * dbl_trunc z))))"

section \<open>Line wrapping: \<open>wrap_text\<close>\<close>

text \<open>
  A font handle is what \<open>font.getbbox\<close> answers: the box \<open>(left, top, right, bottom)\<close> of a
  string, in pixels.
\<close>

record font =
  getbbox :: "string \<Rightarrow> int \<times> int \<times> int \<times> int"

definition bbox_left :: "int \<times> int \<times> int \<times> int \<Rightarrow> int" where
  "bbox_left b = fst b"

definition bbox_right :: "int \<times> int \<times> int \<times> int \<Rightarrow> int" where
  "bbox_right b = fst (snd (snd b))"

definition bbox_bottom :: "int \<times> int \<times> int \<times> int \<Rightarrow> int" where
  "bbox_bottom b = snd (snd (snd b))"

text \<open>\<open>text.split('\n')\<close>: the pieces between line feeds, at least one.\<close>

fun split_on :: "char \<Rightarrow> string \<Rightarrow> string list" where
  "split_on sep [] = [[]]"
| "split_on sep (c # cs) =
     (if c = sep then [] # split_on sep cs
      else (case split_on sep cs of [] \<Rightarrow> [[c]] | p # ps \<Rightarrow> (c # p) # ps))"

text \<open>
  \<^verbatim>\<open>
  def wrap_text(text, font, max_width):
      lines = []
      if not text: return lines
      avg_char_width = font.getbbox("x")[2]
      max_chars = int(max_width / (avg_char_width * 0.9)) # padding
      paragraphs = text.split('\n')
      for p in paragraphs:
          wrapped = textwrap.wrap(p, width=max_chars)
          for line in wrapped:
              bbox = font.getbbox(line)
              w = bbox[2] - bbox[0]
              if w <= max_width:
                  lines.append(line)
              else:
                  lines.append(line)
      return lines
  \<close>
\<close>

fun append_lines :: "font \<Rightarrow> int \<Rightarrow> string list \<Rightarrow> string list \<Rightarrow> string list" where
  "append_lines fnt max_width [] lines = lines"
| "append_lines fnt max_width (line # wrapped) lines =
     (let bbox = getbbox fnt line;
          w = bbox_right bbox - bbox_left bbox
      in if w \<le> max_width then append_lines fnt max_width wrapped (lines @ [line])
         else append_lines fnt max_width wrapped (lines @ [line]))"

fun wrap_paragraphs ::
  "font \<Rightarrow> int \<Rightarrow> int \<Rightarrow> string list \<Rightarrow> string list \<Rightarrow> py_error + string list" where
  "wrap_paragraphs fnt max_width mc [] lines = Inr lines"
| "wrap_paragraphs fnt max_width mc (p # ps) lines =
     (case tw_wrap p mc of
        Inl err \<Rightarrow> Inl err
      | Inr wrapped \<Rightarrow>
          wrap_paragraphs fnt max_width mc ps (append_lines fnt max_width wrapped lines))"

definition wrap_text :: "string option \<Rightarrow> font \<Rightarrow> int \<Rightarrow> py_error + string list" where
  "wrap_text text fnt max_width =
     (case text of
        None \<Rightarrow> Inr []
      | Some t \<Rightarrow>
          if t = [] then Inr []
          else
           (let avg_char_width = bbox_right (getbbox fnt ''x'')
            in case max_chars max_width avg_char_width of
                 Inl err \<Rightarrow> Inl err
               | Inr mc \<Rightarrow> wrap_paragraphs fnt max_width mc (split_on (CHR 0x0A) t) []))"

text \<open>
  A font handle for examples: every glyph is \<open>w\<close> pixels wide and \<open>h\<close> pixels high.
\<close>

definition fixed_font :: "int \<Rightarrow> int \<Rightarrow> font" where
  "fixed_font w h = \<lparr>getbbox = (\<lambda>s. (0, 0, w * int (length s), h))\<rparr>"

section \<open>Word sequences\<close>

text \<open>
  The word sequence of a text is what \<open>str.split()\<close> returns: the maximal runs of
  characters that are not whitespace, in order.
\<close>

fun words_of :: "string \<Rightarrow> string list" where
  "words_of [] = []"
| "words_of (c # cs) =
     (if py_isspace c then words_of cs
      else if cs = [] \<or> py_isspace (hd cs) then [c] # words_of cs
      else (case words_of cs of [] \<Rightarrow> [[c]] | w # ws \<Rightarrow> (c # w) # ws))"

text \<open>\<open>sep.join(lines)\<close> for a separator of one character.\<close>

fun join_chr :: "char \<Rightarrow> string list \<Rightarrow> string" where
  "join_chr sep [] = []"
| "join_chr sep [l] = l"
| "join_chr sep (l # m # ls) = l @ sep # join_chr sep (m # ls)"

section \<open>Selection: \<open>fetch_batch_questions\<close>\<close>

text \<open>
  A record of the question bank, as the data model has it: \<open>id\<close> is a string; the other
  keys are read with \<open>dict.get\<close>, so each may be absent (\<open>None\<close>). The \<open>image\<close> field is an
  arbitrary JSON value, of which the selector reads only the truth value.
\<close>

datatype json =
  JNull | JBool bool | JNum int | JStr string | JArr "json list" | JObj "(string \<times> json) list"

fun truthy :: "json \<Rightarrow> bool" where
  "truthy JNull = False"
| "truthy (JBool b) = b"
| "truthy (JNum n) = (n \<noteq> 0)"
| "truthy (JStr s) = (s \<noteq> [])"
| "truthy (JArr xs) = (xs \<noteq> [])"
| "truthy (JObj kvs) = (kvs \<noteq> [])"

record card =
  card_id :: string
  subject :: "string option"
  question :: "string option"
  answer :: "string option"
  explanation :: "string option"
  image :: "json option"

definition has_image :: "card \<Rightarrow> bool" where
  \<comment> \<open>the truth value of \<open>c.get('image')\<close>\<close>
  "has_image c = (case image c of None \<Rightarrow> False | Some v \<Rightarrow> truthy v)"

definition explanation_len :: "card \<Rightarrow> int" where
  \<comment> \<open>\<open>len(c.get('explanation', ''))\<close>\<close>
  "explanation_len c = (case explanation c of None \<Rightarrow> 0 | Some s \<Rightarrow> int (length s))"

text \<open>
  \<open>random.sample(population, k)\<close> for \<open>0 \<le> k \<le> len(population)\<close>: \<open>k\<close> elements at
  distinct positions, in the order drawn. The random source is a list of numbers; each
  draw takes the element at position \<open>r mod len(pool)\<close> out of the pool, so every
  selection without replacement is the result for some source.
\<close>

fun sample :: "nat list \<Rightarrow> 'a list \<Rightarrow> nat \<Rightarrow> 'a list" where
  "sample rs pool 0 = []"
| "sample rs pool (Suc k) =
     (if pool = [] then []
      else (let i = (case rs of [] \<Rightarrow> 0 | r # _ \<Rightarrow> r mod length pool)
            in pool ! i # sample (tl rs) (take i pool @ drop (Suc i) pool) k))"

text \<open>
  \<^verbatim>\<open>
  available = [c for c in all_cards
               if c['id'] not in used_ids and (not c.get('image'))
               and len(c.get('explanation', '')) < 600]
  if len(available) < count:
      available = [c for c in all_cards
                   if c['id'] not in used_ids and (not c.get('image'))]
  if not available:
      available = [c for c in all_cards if not c.get('image')]
  return random.sample(available, min(len(available), count))
  \<close>
  The three values of \<open>available\<close> are \<open>fresh_short\<close>, \<open>relaxed_pool\<close> and \<open>final_pool\<close>.
\<close>

definition fresh_short :: "card list \<Rightarrow> string list \<Rightarrow> card list" where
  "fresh_short all_cards used_ids =
     filter (\<lambda>c. card_id c \<notin> set used_ids \<and> \<not> has_image c \<and> explanation_len c < 600)
       all_cards"

definition relaxed_pool :: "card list \<Rightarrow> string list \<Rightarrow> int \<Rightarrow> card list" where
  "relaxed_pool all_cards used_ids count =
     (if int (length (fresh_short all_cards used_ids)) < count
      then filter (\<lambda>c. card_id c \<notin> set used_ids \<and> \<not> has_image c) all_cards
      else fresh_short all_cards used_ids)"

definition final_pool :: "card list \<Rightarrow> string list \<Rightarrow> int \<Rightarrow> card list" where
  "final_pool all_cards used_ids count =
     (if relaxed_pool all_cards used_ids count = []
      then filter (\<lambda>c. \<not> has_image c) all_cards
      else relaxed_pool all_cards used_ids count)"

text \<open>
  The bank is \<open>None\<close> when the file does not exist (the function returns \<open>[]\<close>);
  \<open>used_ids\<close> is what \<open>load_history\<close> returned. \<open>random.sample\<close> raises \<open>ValueError\<close> for a
  negative sample size.
\<close>

definition fetch_batch_questions ::
  "nat list \<Rightarrow> card list option \<Rightarrow> string list \<Rightarrow> int \<Rightarrow> py_error + card list" where
  "fetch_batch_questions rs bank used_ids count =
     (case bank of
        None \<Rightarrow> Inr []
      | Some all_cards \<Rightarrow>
          (let available = final_pool all_cards used_ids count;
               k = min (int (length available)) count
           in if k < 0 then Inl ValueError else Inr (sample rs available (nat k))))"

section \<open>Rendering: the text blocks of \<open>render_card_front\<close> and \<open>render_card_back\<close>\<close>

text \<open>
  The canvas is 1080 by 1350 and \<open>draw_glass_card_bg\<close> returns the content box
  \<open>(60, 220, 1020, 1170)\<close>. A rendered block is the list of its \<open>draw.text\<close> calls, each
  with its position and its string; the gradient, header, panel, footer and captions do
  not depend on the wrapped text and are left out. \<open>get_font\<close> looks for font files; it is
  a parameter here, from a size and a variant to a font handle.
\<close>

datatype variant = Regular | Bold | Mono

definition cx1 :: int where "cx1 = 60"
definition cy1 :: int where "cy1 = 220"
definition cx2 :: int where "cx2 = 1080 - 60"
definition cy2 :: int where "cy2 = 1350 - 180"
definition card_w :: int where "card_w = cx2 - cx1"
definition card_h :: int where "card_h = cy2 - cy1"

type_synonym draw_call = "rat \<times> rat \<times> string"

definition drawn_text :: "draw_call \<Rightarrow> string" where
  "drawn_text d = snd (snd d)"

definition get_str :: "string option \<Rightarrow> string \<Rightarrow> string option" where
  \<comment> \<open>\<open>card.get(key, default)\<close> for a key that holds a string when present\<close>
  "get_str field dflt = (case field of None \<Rightarrow> Some dflt | Some s \<Rightarrow> Some s)"

subsection \<open>Front face\<close>

text \<open>
  \<^verbatim>\<open>
  question = clean_text(card.get('question', 'Question?'))
  font_size = 68
  if len(question) > 100: font_size = 58
  if len(question) > 200: font_size = 48
  font_q = get_font(font_size, "Bold")
  lines = wrap_text(question, font_q, card_w - 140)
  line_height = font_q.getbbox("Ay")[3] + 15
  total_h = len(lines) * line_height
  start_y = cy1 + (card_h - total_h) / 2
  curr_y = start_y
  for line in lines:
      bbox = font_q.getbbox(line)
      lw = bbox[2] - bbox[0]
      draw.text((cx1 + (card_w - lw) / 2, curr_y), line, ...)
      curr_y += line_height
  \<close>
  The two divisions by 2 are exact.
\<close>

definition question_font_size :: "string \<Rightarrow> int" where
  "question_font_size q =
     (let font_size = 68;
          font_size = (if 100 < length q then 58 else font_size);
          font_size = (if 200 < length q then 48 else font_size)
      in font_size)"

fun draw_centered :: "font \<Rightarrow> rat \<Rightarrow> int \<Rightarrow> string list \<Rightarrow> draw_call list" where
  "draw_centered fnt curr_y line_height [] = []"
| "draw_centered fnt curr_y line_height (line # lines) =
     (let bbox = getbbox fnt line;
          lw = bbox_right bbox - bbox_left bbox
      in (of_int cx1 + of_int (card_w - lw) / 2, curr_y, line)
           # draw_centered fnt (curr_y + of_int line_height) line_height lines)"

definition render_card_front ::
  "(int \<Rightarrow> variant \<Rightarrow> font) \<Rightarrow> card \<Rightarrow> py_error + draw_call list" where
  "render_card_front get_font c =
     (let q = clean_text (get_str (question c) ''Question?'');
          font_q = get_font (question_font_size q) Bold
      in case wrap_text (Some q) font_q (card_w - 140) of
           Inl err \<Rightarrow> Inl err
         | Inr lines \<Rightarrow>
             (let line_height = bbox_bottom (getbbox font_q ''Ay'') + 15;
                  total_h = int (length lines) * line_height;
                  start_y = of_int cy1 + of_int (card_h - total_h) / 2
              in Inr (draw_centered font_q start_y line_height lines)))"

subsection \<open>Back face\<close>

text \<open>
  \<^verbatim>\<open>
  ans_h = 240
  ax1, ay1 = cx1, cy1
  ax2, ay2 = cx2, cy1 + ans_h
  answer = clean_text(card.get('answer', 'Answer'))
  font_ans = get_font(54, "Bold")
  ans_lines = wrap_text(answer, font_ans, card_w - 120)
  # Clamp to max 2 lines
  if len(ans_lines) > 3: ans_lines = ans_lines[:3]
  ay_text = ay1 + 90
  for line in ans_lines:
      draw.text((ax1 + 60, ay_text), line, ...)
      ay_text += 60
  \<close>
\<close>

definition clamp_lines :: "string list \<Rightarrow> string list" where
  "clamp_lines ans_lines = (if 3 < length ans_lines then take 3 ans_lines else ans_lines)"

fun draw_answer :: "int \<Rightarrow> string list \<Rightarrow> draw_call list" where
  "draw_answer ay_text [] = []"
| "draw_answer ay_text (line # lines) =
     (of_int (cx1 + 60), of_int ay_text, line) # draw_answer (ay_text + 60) lines"

text \<open>
  \<^verbatim>\<open>
  expl_y_start = ay2 + 50
  exploration = clean_text(card.get('explanation', ''))
  expl_w = card_w - 120
  font_size = 38
  if len(exploration) > 200: font_size = 32
  if len(exploration) > 400: font_size = 28
  font_expl = get_font(font_size, "Regular")
  expl_lines = wrap_text(exploration, font_expl, expl_w)
  curr_y = expl_y_start + 50
  line_h = font_expl.getbbox("Ay")[3] + 12
  for line in expl_lines:
      if curr_y + line_h > cy2 - 40: break # simple clipping
      draw.text((cx1 + 60, curr_y), line, ...)
      curr_y += line_h
  \<close>
\<close>

definition expl_y_start :: int where
  "expl_y_start = cy1 + 240 + 50"

definition explanation_font_size :: "string \<Rightarrow> int" where
  "explanation_font_size e =
     (let font_size = 38;
          font_size = (if 200 < length e then 32 else font_size);
          font_size = (if 400 < length e then 28 else font_size)
      in font_size)"

fun draw_clipped :: "int \<Rightarrow> int \<Rightarrow> string list \<Rightarrow> draw_call list" where
  "draw_clipped curr_y line_h [] = []"
| "draw_clipped curr_y line_h (line # lines) =
     (if cy2 - 40 < curr_y + line_h then []
      else (of_int (cx1 + 60), of_int curr_y, line)
             # draw_clipped (curr_y + line_h) line_h lines)"

text \<open>
  \<open>render_card_back\<close> gives the calls of the answer banner and those of the explanation
  block. An exception of either \<open>wrap_text\<close> ends the function.
\<close>

definition render_card_back ::
  "(int \<Rightarrow> variant \<Rightarrow> font) \<Rightarrow> card \<Rightarrow> py_error + draw_call list \<times> draw_call list" where
  "render_card_back get_font c =
     (let a = clean_text (get_str (answer c) ''Answer'');
          font_ans = get_font 54 Bold
      in case wrap_text (Some a) font_ans (card_w - 120) of
           Inl err \<Rightarrow> Inl err
         | Inr ans_lines \<Rightarrow>
             (let answer_calls = draw_answer (cy1 + 90) (clamp_lines ans_lines);
                  exploration = clean_text (get_str (explanation c) []);
                  font_expl = get_font (explanation_font_size exploration) Regular
              in case wrap_text (Some exploration) font_expl (card_w - 120) of
                   Inl err \<Rightarrow> Inl err
                 | Inr expl_lines \<Rightarrow>
                     (let line_h = bbox_bottom (getbbox font_expl ''Ay'') + 12
                      in Inr (answer_calls,
                              draw_clipped (expl_y_start + 50) line_h expl_lines))))"

text \<open>
  Font handles for examples: at every size and variant, glyphs as wide and as high as the
  size.
\<close>

definition example_fonts :: "int \<Rightarrow> variant \<Rightarrow> font" where
  "example_fonts sz v = fixed_font sz sz"

section \<open>Example records\<close>

definition example_card :: "string \<Rightarrow> card" where
  "example_card i =
     \<lparr>card_id = i,
      subject = Some ''Anatomy'',
      question = Some ''Which nerve supplies the *deltoid* muscle?'',
      answer = Some ''Axillary nerve'',
      explanation = Some ''The axillary nerve (C5, C6) leaves the posterior cord.'',
      image = None\<rparr>"

definition example_bank :: "card list" where
  "example_bank = [example_card ''q1'', example_card ''q2'', example_card ''q3'']"

text \<open>A record with a question of 199 characters (twenty times the same word).\<close>

definition long_question_card :: card where
  "long_question_card =
     (example_card ''q9'')\<lparr>question := Some (concat (replicate 20 ''ventricle ''))\<rparr>"

text \<open>A record with an answer of 52 characters.\<close>

definition long_answer_card :: card where
  "long_answer_card =
     (example_card ''q8'')\<lparr>answer :=
        Some ''Axillary nerve from the posterior cord of the plexus''\<rparr>"

text \<open>A record with an explanation of 191 characters (twelve times the same word).\<close>

definition long_explanation_card :: card where
  "long_explanation_card =
     (example_card ''q7'')\<lparr>explanation := Some (concat (replicate 12 ''ventriculostomy ''))\<rparr>"

section \<open>Properties of \<open>clean_text\<close>\<close>

lemma space_isspace: "py_isspace (CHR '' '')"
  by (simp add: py_isspace_def)

lemma markup_not_space: "is_markup c \<Longrightarrow> \<not> py_isspace c"
  by (auto simp: is_markup_def py_isspace_def)

lemma collapse_ws_hd:
  "collapse_ws s \<noteq> [] \<Longrightarrow> py_isspace (hd (collapse_ws s)) \<Longrightarrow> s \<noteq> [] \<and> py_isspace (hd s)"
  by (cases s) (auto split: if_splits)

lemma single_spaced_collapse: "single_spaced (collapse_ws s)"
proof (induction s rule: collapse_ws.induct)
  case 1
  show ?case by simp
next
  case (2 c cs)
  show ?case
  proof (cases "py_isspace c")
    case True
    let ?r = "collapse_ws (dropWhile py_isspace cs)"
    have ih: "single_spaced ?r" using 2(1) True by simp
    show ?thesis
    proof (cases ?r)
      case Nil
      with True show ?thesis by simp
    next
      case (Cons d ds)
      have "\<not> py_isspace d"
      proof
        assume "py_isspace d"
        with Cons collapse_ws_hd[of "dropWhile py_isspace cs"]
        have "dropWhile py_isspace cs \<noteq> [] \<and> py_isspace (hd (dropWhile py_isspace cs))"
          by simp
        then show False using hd_dropWhile[of py_isspace cs] by blast
      qed
      with True ih Cons show ?thesis by simp
    qed
  next
    case False
    then have ih: "single_spaced (collapse_ws cs)" using 2(2) by simp
    with False show ?thesis by (cases "collapse_ws cs") auto
  qed
qed

lemma collapse_ws_id: "single_spaced s \<Longrightarrow> collapse_ws s = s"
proof (induction s rule: single_spaced.induct)
  case 1
  show ?case by simp
next
  case (2 c)
  then show ?case by simp
next
  case (3 c d cs)
  then show ?case by auto
qed

lemma single_spaced_tl: "single_spaced (c # cs) \<Longrightarrow> single_spaced cs"
  by (cases cs) auto

lemma single_spaced_dropWhile: "single_spaced s \<Longrightarrow> single_spaced (dropWhile P s)"
  by (induction s) (auto dest: single_spaced_tl)

lemma single_spaced_append_left: "single_spaced (xs @ ys) \<Longrightarrow> single_spaced xs"
proof (induction xs rule: single_spaced.induct)
  case 1
  show ?case by simp
next
  case (2 c)
  then show ?case by (cases ys) auto
next
  case (3 c d cs)
  then show ?case by auto
qed

lemma single_spaced_only_spaces:
  "single_spaced s \<Longrightarrow> c \<in> set s \<Longrightarrow> py_isspace c \<Longrightarrow> c = CHR '' ''"
  by (induction s rule: single_spaced.induct) auto

lemma single_spaced_no_run:
  "single_spaced s \<Longrightarrow> Suc i < length s \<Longrightarrow> py_isspace (s ! i) \<Longrightarrow> \<not> py_isspace (s ! Suc i)"
proof (induction s arbitrary: i rule: single_spaced.induct)
  case 1
  then show ?case by simp
next
  case (2 c)
  then show ?case by simp
next
  case (3 c d cs)
  show ?case
  proof (cases i)
    case 0
    with 3 show ?thesis by simp
  next
    case (Suc j)
    with 3 show ?thesis by simp
  qed
qed

lemma rev_dropWhile_rev_prefix: "\<exists>zs. s = rev (dropWhile P (rev s)) @ zs"
proof -
  have "rev s = takeWhile P (rev s) @ dropWhile P (rev s)" by simp
  then have "s = rev (dropWhile P (rev s)) @ rev (takeWhile P (rev s))"
    by (metis rev_append rev_rev_ident)
  then show ?thesis by blast
qed

lemma strip_prefix: "\<exists>zs. dropWhile py_isspace s = strip s @ zs"
  unfolding strip_def using rev_dropWhile_rev_prefix[of "dropWhile py_isspace s" py_isspace]
  by blast

lemma single_spaced_strip: "single_spaced s \<Longrightarrow> single_spaced (strip s)"
proof -
  assume "single_spaced s"
  then have "single_spaced (dropWhile py_isspace s)" by (rule single_spaced_dropWhile)
  moreover obtain zs where "dropWhile py_isspace s = strip s @ zs"
    using strip_prefix by blast
  ultimately show ?thesis by (metis single_spaced_append_left)
qed

lemma strip_hd: "strip s \<noteq> [] \<Longrightarrow> \<not> py_isspace (hd (strip s))"
proof -
  assume ne: "strip s \<noteq> []"
  let ?d = "dropWhile py_isspace s"
  obtain zs where z: "?d = strip s @ zs" using strip_prefix by blast
  with ne have "hd (strip s) = hd ?d" by (metis hd_append2)
  moreover from z ne have "?d \<noteq> []" by auto
  ultimately show ?thesis using hd_dropWhile[of py_isspace s] by simp
qed

lemma strip_last: "strip s \<noteq> [] \<Longrightarrow> \<not> py_isspace (last (strip s))"
proof -
  assume ne: "strip s \<noteq> []"
  let ?r = "dropWhile py_isspace (rev (dropWhile py_isspace s))"
  from ne have r: "?r \<noteq> []" by (simp add: strip_def)
  have "last (strip s) = hd ?r" using r by (simp add: strip_def last_rev)
  with r show ?thesis
    using hd_dropWhile[of py_isspace "rev (dropWhile py_isspace s)"] by simp
qed

lemma strip_id:
  assumes "s = [] \<or> (\<not> py_isspace (hd s) \<and> \<not> py_isspace (last s))"
  shows "strip s = s"
proof (cases s)
  case Nil
  then show ?thesis by (simp add: strip_def)
next
  case (Cons c cs)
  with assms have h: "\<not> py_isspace c" and l: "\<not> py_isspace (last s)" by auto
  from h Cons have 1: "dropWhile py_isspace s = s" by simp
  from Cons obtain x xs where rs: "rev s = x # xs" by (cases "rev s") auto
  then have "x = last s" by (metis last_rev list.sel(1) rev_rev_ident)
  with l have "dropWhile py_isspace (x # xs) = x # xs" by simp
  then have "dropWhile py_isspace (rev s) = rev s" by (simp only: rs)
  with 1 show ?thesis by (simp add: strip_def)
qed

lemma set_collapse_ws: "set (collapse_ws s) \<subseteq> insert (CHR '' '') (set s)"
proof (induction s rule: collapse_ws.induct)
  case 1
  show ?case by simp
next
  case (2 c cs)
  show ?case
  proof (cases "py_isspace c")
    case True
    with 2(1) have "set (collapse_ws (dropWhile py_isspace cs))
        \<subseteq> insert (CHR '' '') (set (dropWhile py_isspace cs))" by simp
    moreover have "set (dropWhile py_isspace cs) \<subseteq> set cs"
      using set_dropWhileD[of _ py_isspace cs] by auto
    ultimately show ?thesis using True by auto
  next
    case False
    with 2(2) show ?thesis by auto
  qed
qed

lemma set_strip: "set (strip s) \<subseteq> set s"
proof -
  have "set (strip s) \<subseteq> set (dropWhile py_isspace s)"
    unfolding strip_def
    using set_dropWhileD[of _ py_isspace "rev (dropWhile py_isspace s)"] by auto
  also have "\<dots> \<subseteq> set s" using set_dropWhileD[of _ py_isspace s] by auto
  finally show ?thesis .
qed

lemma clean_text_no_markup: "c \<in> set (clean_text t) \<Longrightarrow> \<not> is_markup c"
proof (cases t)
  case None
  assume "c \<in> set (clean_text t)"
  with None show ?thesis by simp
next
  case (Some s)
  assume c: "c \<in> set (clean_text t)"
  show ?thesis
  proof (cases "s = []")
    case True
    with Some c show ?thesis by simp
  next
    case False
    let ?f = "filter (\<lambda>c. \<not> is_markup c) s"
    from c Some False have "c \<in> set (strip (collapse_ws ?f))" by simp
    then have "c \<in> insert (CHR '' '') (set ?f)"
      using set_strip set_collapse_ws by blast
    then show ?thesis using markup_not_space[of c] space_isspace by auto
  qed
qed

lemma clean_text_single_spaced: "single_spaced (clean_text t)"
proof (cases t)
  case None
  then show ?thesis by simp
next
  case (Some s)
  then show ?thesis by (simp add: single_spaced_strip single_spaced_collapse)
qed

lemma clean_text_ends:
  "clean_text t \<noteq> [] \<Longrightarrow>
     \<not> py_isspace (hd (clean_text t)) \<and> \<not> py_isspace (last (clean_text t))"
proof (cases t)
  case None
  assume "clean_text t \<noteq> []"
  with None show ?thesis by simp
next
  case (Some s)
  assume ne: "clean_text t \<noteq> []"
  with Some have "s \<noteq> []" by auto
  with Some have "clean_text t = strip (collapse_ws (filter (\<lambda>c. \<not> is_markup c) s))"
    by simp
  with ne show ?thesis using strip_hd strip_last by metis
qed

text \<open>
  C5. \<open>clean_text\<close> is idempotent: cleaning a cleaned text (or the result for \<open>None\<close>)
  gives the same string again.
\<close>

theorem clean_text_idempotent: "clean_text (Some (clean_text t)) = clean_text t"
proof (cases "clean_text t = []")
  case True
  then show ?thesis by simp
next
  case False
  let ?r = "clean_text t"
  have "filter (\<lambda>c. \<not> is_markup c) ?r = ?r"
    using clean_text_no_markup[of _ t] by (simp add: filter_id_conv)
  moreover have "collapse_ws ?r = ?r"
    using clean_text_single_spaced by (rule collapse_ws_id)
  moreover have "strip ?r = ?r"
    using clean_text_ends[OF False] by (intro strip_id) simp
  ultimately show ?thesis using False by simp
qed

theorem clean_text_idempotent_witness:
  "clean_text (Some (clean_text (Some '' *What*  is _x_?  ''))) = ''What is x?''"
  using clean_text_idempotent[of "Some '' *What*  is _x_?  ''"]
  by (simp add: py_isspace_def is_markup_def strip_def)

text \<open>
  C10. For \<open>None\<close> and for every string, the result of \<open>clean_text\<close> contains none of
  the characters \<open>*\<close>, \<open>_\<close> and the backquote; each of its whitespace characters is a
  space and no two of them are adjacent; it neither starts nor ends with whitespace;
  and \<open>clean_text(None)\<close> and \<open>clean_text("")\<close> are the empty string.
\<close>

theorem clean_text_normal_form:
  "(\<forall>c \<in> set (clean_text t). c \<noteq> CHR ''*'' \<and> c \<noteq> CHR ''_'' \<and> c \<noteq> CHR 0x60)
   \<and> (\<forall>c \<in> set (clean_text t). py_isspace c \<longrightarrow> c = CHR '' '')
   \<and> (\<forall>i. Suc i < length (clean_text t) \<longrightarrow>
         \<not> (py_isspace (clean_text t ! i) \<and> py_isspace (clean_text t ! Suc i)))
   \<and> (clean_text t \<noteq> [] \<longrightarrow>
         \<not> py_isspace (hd (clean_text t)) \<and> \<not> py_isspace (last (clean_text t)))
   \<and> clean_text None = [] \<and> clean_text (Some []) = []"
proof -
  have 1: "\<forall>c \<in> set (clean_text t). c \<noteq> CHR ''*'' \<and> c \<noteq> CHR ''_'' \<and> c \<noteq> CHR 0x60"
    using clean_text_no_markup[of _ t] by (auto simp: is_markup_def)
  have 2: "\<forall>c \<in> set (clean_text t). py_isspace c \<longrightarrow> c = CHR '' ''"
    using single_spaced_only_spaces[OF clean_text_single_spaced] by blast
  have 3: "\<forall>i. Suc i < length (clean_text t) \<longrightarrow>
         \<not> (py_isspace (clean_text t ! i) \<and> py_isspace (clean_text t ! Suc i))"
    using single_spaced_no_run[OF clean_text_single_spaced] by blast
  have 4: "clean_text t \<noteq> [] \<longrightarrow>
         \<not> py_isspace (hd (clean_text t)) \<and> \<not> py_isspace (last (clean_text t))"
    using clean_text_ends by blast
  show ?thesis using 1 2 3 4 by simp
qed

theorem clean_text_normal_form_witness:
  "clean_text (Some ''  *Which*   _nerve_ is it?  '') = ''Which nerve is it?''
   \<and> clean_text (Some ''  *Which*   _nerve_ is it?  '') \<noteq> []
   \<and> \<not> py_isspace (hd (clean_text (Some ''  *Which*   _nerve_ is it?  '')))
   \<and> \<not> py_isspace (last (clean_text (Some ''  *Which*   _nerve_ is it?  '')))
   \<and> CHR ''*'' \<notin> set (clean_text (Some ''  *Which*   _nerve_ is it?  ''))"
  using clean_text_normal_form[of "Some ''  *Which*   _nerve_ is it?  ''"]
  by (simp add: py_isspace_def is_markup_def strip_def)

section \<open>Properties of the wrapping loop\<close>

subsection \<open>Whitespace and blank strings\<close>

lemma tw_whitespace_isspace: "tw_whitespace c \<Longrightarrow> py_isspace c"
  by (auto simp: tw_whitespace_def py_isspace_def Let_def)

lemma hyphen_not_space: "is_hyphen c \<Longrightarrow> \<not> py_isspace c"
  by (simp add: is_hyphen_def py_isspace_def)

lemma strip_empty_iff: "strip s = [] \<longleftrightarrow> (\<forall>c \<in> set s. py_isspace c)"
proof
  assume "strip s = []"
  then have "dropWhile py_isspace (rev (dropWhile py_isspace s)) = []"
    by (simp add: strip_def)
  then have "\<forall>c \<in> set (dropWhile py_isspace s). py_isspace c"
    by simp
  then have "dropWhile py_isspace s = []"
    using hd_dropWhile[of py_isspace s] by (cases "dropWhile py_isspace s") auto
  then show "\<forall>c \<in> set s. py_isspace c" by simp
next
  assume a: "\<forall>c \<in> set s. py_isspace c"
  have "dropWhile py_isspace s = []" using a by simp
  then show "strip s = []" unfolding strip_def by (simp only: rev.simps dropWhile.simps)
qed

abbreviation nonspace :: "string \<Rightarrow> string" where
  "nonspace s \<equiv> filter (\<lambda>c. \<not> py_isspace c) s"

lemma nonspace_blank: "strip s = [] \<Longrightarrow> nonspace s = []"
  by (simp add: strip_empty_iff filter_empty_conv)

subsection \<open>The inner loop\<close>

lemma fill_line_append:
  "fill_line width cl len chunks = (cl', len', rest) \<Longrightarrow> cl' @ rest = cl @ chunks"
  by (induction chunks arbitrary: cl len) (auto split: if_splits)

lemma fill_line_len:
  "fill_line width cl (length (concat cl)) chunks = (cl', len', rest) \<Longrightarrow>
     len' = length (concat cl')"
proof (induction chunks arbitrary: cl)
  case Nil
  then show ?case by auto
next
  case (Cons c cs)
  show ?case
  proof (cases "length (concat cl) + length c \<le> width")
    case True
    with Cons.prems
    have "fill_line width (cl @ [c]) (length (concat (cl @ [c]))) cs = (cl', len', rest)"
      by simp
    then show ?thesis by (rule Cons.IH)
  next
    case False
    with Cons.prems show ?thesis by auto
  qed
qed

lemma fill_line_le:
  "fill_line width cl len chunks = (cl', len', rest) \<Longrightarrow> len \<le> width \<Longrightarrow> len' \<le> width"
  by (induction chunks arbitrary: cl len) (auto split: if_splits)

lemma fill_line_all:
  "len + length (concat chunks) \<le> width \<Longrightarrow>
     fill_line width cl len chunks = (cl @ chunks, len + length (concat chunks), [])"
  by (induction chunks arbitrary: cl len) auto

lemma rfind_hyphen_less: "rfind_hyphen s e = Some h \<Longrightarrow> h < e \<and> h < length s \<and> is_hyphen (s ! h)"
proof -
  assume a: "rfind_hyphen s e = Some h"
  let ?l = "filter (\<lambda>i. is_hyphen (s ! i)) (rev [0..<min e (length s)])"
  from a obtain t where "?l = h # t"
    by (auto simp: rfind_hyphen_def split: list.splits)
  then have "h \<in> set ?l" by simp
  then show ?thesis by auto
qed

lemma break_point_le: "break_point chunk space_left \<le> space_left"
proof (cases "rfind_hyphen chunk space_left")
  case None
  then show ?thesis by (simp add: break_point_def)
next
  case (Some h)
  from rfind_hyphen_less[OF Some] have "h + 1 \<le> space_left" by simp
  with Some show ?thesis by (simp add: break_point_def)
qed

subsection \<open>One pass of the outer loop\<close>

text \<open>
  The line a pass produces from the chunks it put on the current line: a last chunk that
  is blank is dropped, and an empty line is not appended.
\<close>

definition finish_line :: "string list \<Rightarrow> string list" where
  "finish_line cur_line2 =
     (let cur_line3 = (if cur_line2 \<noteq> [] \<and> strip (last cur_line2) = []
                       then butlast cur_line2 else cur_line2)
      in if cur_line3 \<noteq> [] then [concat cur_line3] else [])"

lemma wrap_line_unfold:
  assumes "fill_line width [] 0
      (if strip (hd chunks) = [] \<and> has_lines then tl chunks else chunks) = (cl, len, chunks2)"
  shows "wrap_line width has_lines chunks =
     (if chunks2 \<noteq> [] \<and> width < length (hd chunks2)
      then (finish_line (snd (handle_long_word chunks2 cl len width)),
            fst (handle_long_word chunks2 cl len width))
      else (finish_line cl, chunks2))"
  unfolding wrap_line_def finish_line_def Let_def assms
  by (simp add: case_prod_beta)

lemma nonspace_finish_line: "nonspace (concat (finish_line cl)) = nonspace (concat cl)"
proof (cases "cl \<noteq> [] \<and> strip (last cl) = []")
  case True
  then have "cl = butlast cl @ [last cl]" by simp
  then have "concat cl = concat (butlast cl) @ last cl" by (metis concat_append concat.simps append_Nil2)
  with True show ?thesis by (simp add: finish_line_def Let_def nonspace_blank)
next
  case False
  then show ?thesis by (auto simp: finish_line_def)
qed

lemma set_finish_line: "set (concat (finish_line cl)) \<subseteq> set (concat cl)"
proof -
  have "set (butlast cl) \<subseteq> set cl" by (meson in_set_butlastD subsetI)
  then show ?thesis by (auto simp: finish_line_def Let_def)
qed

lemma length_finish_line: "l \<in> set (finish_line cl) \<Longrightarrow> length l \<le> length (concat cl)"
proof -
  assume a: "l \<in> set (finish_line cl)"
  have "length (concat (butlast cl)) \<le> length (concat cl)"
  proof (cases "cl = []")
    case True
    then show ?thesis by simp
  next
    case False
    then have "cl = butlast cl @ [last cl]" by simp
    then have "concat cl = concat (butlast cl) @ last cl"
      by (metis concat_append concat.simps append_Nil2)
    then show ?thesis by simp
  qed
  with a show ?thesis by (auto simp: finish_line_def Let_def split: if_splits)
qed

lemma handle_long_word_concat:
  "chunks \<noteq> [] \<Longrightarrow> handle_long_word chunks cl len width = (chunks', cl') \<Longrightarrow>
     concat cl' @ concat chunks' = concat cl @ concat chunks"
  by (cases chunks) (auto simp: Let_def)

lemma handle_long_word_length:
  assumes "chunks \<noteq> []" and "handle_long_word chunks cl len width = (chunks', cl')"
    and "len = length (concat cl)" and "len \<le> width" and "1 \<le> width"
  shows "length (concat cl') \<le> width"
proof -
  from assms(1) obtain c rest where c: "chunks = c # rest" by (cases chunks) auto
  have "break_point c (width - len) \<le> width - len" by (rule break_point_le)
  then have "length (take (break_point c (width - len)) c) \<le> width - len" by simp
  with assms c show ?thesis by (auto simp: Let_def)
qed

text \<open>
  What one pass keeps: the characters other than whitespace, in their order; it adds no
  character; and for a width of at least 1 its line is no longer than the width.
\<close>

lemma wrap_line_nonspace:
  assumes "chunks \<noteq> []" and "wrap_line width has_lines chunks = (new, rest)"
  shows "nonspace (concat new) @ nonspace (concat rest) = nonspace (concat chunks)"
proof -
  define chunks1 where
    "chunks1 = (if strip (hd chunks) = [] \<and> has_lines then tl chunks else chunks)"
  obtain cl len chunks2 where f: "fill_line width [] 0 chunks1 = (cl, len, chunks2)"
    by (cases "fill_line width [] 0 chunks1") auto
  have c1: "nonspace (concat chunks1) = nonspace (concat chunks)"
    using assms(1) unfolding chunks1_def by (cases chunks) (auto simp: nonspace_blank)
  from fill_line_append[OF f] have app: "cl @ chunks2 = chunks1" by simp
  show ?thesis
  proof (cases "chunks2 \<noteq> [] \<and> width < length (hd chunks2)")
    case True
    obtain chunks3 cl2 where h: "handle_long_word chunks2 cl len width = (chunks3, cl2)"
      by (cases "handle_long_word chunks2 cl len width") auto
    from True h assms(2) have nr: "new = finish_line cl2" "rest = chunks3"
      using wrap_line_unfold[of width chunks has_lines cl len chunks2] f
      unfolding chunks1_def by auto
    from handle_long_word_concat[OF _ h] True
    have "concat cl2 @ concat chunks3 = concat cl @ concat chunks2" by simp
    then have "nonspace (concat cl2) @ nonspace (concat chunks3) = nonspace (concat (cl @ chunks2))"
      by (metis concat_append filter_append)
    with nr app c1 show ?thesis by (simp add: nonspace_finish_line)
  next
    case False
    with assms(2) have nr: "new = finish_line cl" "rest = chunks2"
      using wrap_line_unfold[of width chunks has_lines cl len chunks2] f
      unfolding chunks1_def by auto
    have "nonspace (concat cl) @ nonspace (concat chunks2) = nonspace (concat (cl @ chunks2))"
      by simp
    with nr app c1 show ?thesis by (simp add: nonspace_finish_line)
  qed
qed

lemma wrap_line_set:
  assumes "chunks \<noteq> []" and "wrap_line width has_lines chunks = (new, rest)"
  shows "set (concat new) \<union> set (concat rest) \<subseteq> set (concat chunks)"
proof -
  define chunks1 where
    "chunks1 = (if strip (hd chunks) = [] \<and> has_lines then tl chunks else chunks)"
  obtain cl len chunks2 where f: "fill_line width [] 0 chunks1 = (cl, len, chunks2)"
    by (cases "fill_line width [] 0 chunks1") auto
  have c1: "set (concat chunks1) \<subseteq> set (concat chunks)"
    using assms(1) unfolding chunks1_def by (cases chunks) auto
  from fill_line_append[OF f] have app: "cl @ chunks2 = chunks1" by simp
  then have app': "set (concat cl) \<union> set (concat chunks2) = set (concat chunks1)"
    by (metis concat_append set_append)
  show ?thesis
  proof (cases "chunks2 \<noteq> [] \<and> width < length (hd chunks2)")
    case True
    obtain chunks3 cl2 where h: "handle_long_word chunks2 cl len width = (chunks3, cl2)"
      by (cases "handle_long_word chunks2 cl len width") auto
    from True h assms(2) have nr: "new = finish_line cl2" "rest = chunks3"
      using wrap_line_unfold[of width chunks has_lines cl len chunks2] f
      unfolding chunks1_def by auto
    from handle_long_word_concat[OF _ h] True
    have "concat cl2 @ concat chunks3 = concat cl @ concat chunks2" by simp
    then have "set (concat cl2) \<union> set (concat chunks3) = set (concat cl) \<union> set (concat chunks2)"
      by (metis set_append)
    with nr app' c1 set_finish_line[of cl2] show ?thesis by blast
  next
    case False
    with assms(2) have nr: "new = finish_line cl" "rest = chunks2"
      using wrap_line_unfold[of width chunks has_lines cl len chunks2] f
      unfolding chunks1_def by auto
    with app' c1 set_finish_line[of cl] show ?thesis by blast
  qed
qed

lemma wrap_line_length:
  assumes "chunks \<noteq> []" and "wrap_line width has_lines chunks = (new, rest)"
    and "1 \<le> width" and "l \<in> set new"
  shows "length l \<le> width"
proof -
  define chunks1 where
    "chunks1 = (if strip (hd chunks) = [] \<and> has_lines then tl chunks else chunks)"
  obtain cl len chunks2 where f: "fill_line width [] 0 chunks1 = (cl, len, chunks2)"
    by (cases "fill_line width [] 0 chunks1") auto
  from f have "fill_line width [] (length (concat ([]::string list))) chunks1 = (cl, len, chunks2)"
    by simp
  then have len: "len = length (concat cl)" by (rule fill_line_len)
  from fill_line_le[OF f] have le: "len \<le> width" by simp
  show ?thesis
  proof (cases "chunks2 \<noteq> [] \<and> width < length (hd chunks2)")
    case True
    obtain chunks3 cl2 where h: "handle_long_word chunks2 cl len width = (chunks3, cl2)"
      by (cases "handle_long_word chunks2 cl len width") auto
    from True h assms(2) have nr: "new = finish_line cl2"
      using wrap_line_unfold[of width chunks has_lines cl len chunks2] f
      unfolding chunks1_def by auto
    from handle_long_word_length[OF _ h len le assms(3)] True
    have "length (concat cl2) \<le> width" by simp
    with nr assms(4) length_finish_line[of l cl2] show ?thesis by simp
  next
    case False
    with assms(2) have nr: "new = finish_line cl"
      using wrap_line_unfold[of width chunks has_lines cl len chunks2] f
      unfolding chunks1_def by auto
    with assms(4) length_finish_line[of l cl] len le show ?thesis by simp
  qed
qed

subsection \<open>The outer loop\<close>

lemma wrap_chunks_loop_Nil [simp]: "wrap_chunks_loop width lines [] = lines"
  by (subst wrap_chunks_loop.simps) simp

lemma wrap_chunks_loop_step:
  "chunks \<noteq> [] \<Longrightarrow> wrap_line width (lines \<noteq> []) chunks = (new, rest) \<Longrightarrow>
     wrap_chunks_loop width lines chunks = wrap_chunks_loop width (lines @ new) rest"
  by (subst wrap_chunks_loop.simps) simp

lemma wrap_chunks_loop_nonspace:
  "nonspace (concat (wrap_chunks_loop width lines chunks))
     = nonspace (concat lines) @ nonspace (concat chunks)"
proof (induction width lines chunks rule: wrap_chunks_loop.induct)
  case (1 width lines chunks)
  show ?case
  proof (cases "chunks = []")
    case True
    then show ?thesis by simp
  next
    case False
    obtain new rest where w: "wrap_line width (lines \<noteq> []) chunks = (new, rest)"
      by (cases "wrap_line width (lines \<noteq> []) chunks") auto
    from 1[OF False refl w[symmetric]]
    have "nonspace (concat (wrap_chunks_loop width (lines @ new) rest))
        = nonspace (concat (lines @ new)) @ nonspace (concat rest)" .
    moreover have "wrap_chunks_loop width lines chunks = wrap_chunks_loop width (lines @ new) rest"
      using False w by (rule wrap_chunks_loop_step)
    ultimately show ?thesis using wrap_line_nonspace[OF False w] by simp
  qed
qed

lemma wrap_chunks_loop_set:
  "set (concat (wrap_chunks_loop width lines chunks))
     \<subseteq> set (concat lines) \<union> set (concat chunks)"
proof (induction width lines chunks rule: wrap_chunks_loop.induct)
  case (1 width lines chunks)
  show ?case
  proof (cases "chunks = []")
    case True
    then show ?thesis by simp
  next
    case False
    obtain new rest where w: "wrap_line width (lines \<noteq> []) chunks = (new, rest)"
      by (cases "wrap_line width (lines \<noteq> []) chunks") auto
    from 1[OF False refl w[symmetric]]
    have "set (concat (wrap_chunks_loop width (lines @ new) rest))
        \<subseteq> set (concat (lines @ new)) \<union> set (concat rest)" .
    then have ih: "set (concat (wrap_chunks_loop width (lines @ new) rest))
        \<subseteq> set (concat lines) \<union> (set (concat new) \<union> set (concat rest))"
      by (simp only: concat_append set_append Un_assoc)
    have eq: "wrap_chunks_loop width lines chunks = wrap_chunks_loop width (lines @ new) rest"
      using False w by (rule wrap_chunks_loop_step)
    from ih wrap_line_set[OF False w] show ?thesis unfolding eq by blast
  qed
qed

lemma wrap_chunks_loop_length:
  "1 \<le> width \<Longrightarrow> l \<in> set (wrap_chunks_loop width lines chunks) \<Longrightarrow>
     l \<in> set lines \<or> length l \<le> width"
proof (induction width lines chunks rule: wrap_chunks_loop.induct)
  case (1 width lines chunks)
  show ?case
  proof (cases "chunks = []")
    case True
    with 1(3) show ?thesis by simp
  next
    case False
    obtain new rest where w: "wrap_line width (lines \<noteq> []) chunks = (new, rest)"
      by (cases "wrap_line width (lines \<noteq> []) chunks") auto
    have "wrap_chunks_loop width lines chunks = wrap_chunks_loop width (lines @ new) rest"
      using False w by (rule wrap_chunks_loop_step)
    with 1(3) have "l \<in> set (wrap_chunks_loop width (lines @ new) rest)" by simp
    from 1(1)[OF False refl w[symmetric] 1(2) this]
    have "l \<in> set (lines @ new) \<or> length l \<le> width" .
    then show ?thesis using wrap_line_length[OF False w 1(2)] by auto
  qed
qed

section \<open>Properties of \<open>wrap_text\<close>\<close>

subsection \<open>Chunks\<close>

lemma concat_split_from: "concat (split_from prev rest) = rest"
  by (induction prev rest rule: split_from.induct) (simp_all add: Let_def)

lemma split_from_nonempty: "c \<in> set (split_from prev rest) \<Longrightarrow> c \<noteq> []"
proof (induction prev rest rule: split_from.induct)
  case (1 prev)
  then show ?case by simp
next
  case (2 prev x xs)
  have "0 < wordsep_match prev (x # xs)" by (rule wordsep_match_pos) simp
  then have "take (wordsep_match prev (x # xs)) (x # xs) \<noteq> []" by simp
  with 2 show ?case by (auto simp: Let_def)
qed

lemma expandtabs_no_tab: "CHR 0x09 \<notin> set s \<Longrightarrow> expandtabs col s = s"
  by (induction s arbitrary: col) auto

lemma tab_tw_whitespace: "tw_whitespace (CHR 0x09)"
  by (simp add: tw_whitespace_def)

lemma munge_whitespace_id: "\<forall>c \<in> set s. \<not> tw_whitespace c \<Longrightarrow> munge_whitespace s = s"
proof -
  assume a: "\<forall>c \<in> set s. \<not> tw_whitespace c"
  then have "CHR 0x09 \<notin> set s" using tab_tw_whitespace by blast
  then have "expandtabs 0 s = s" by (rule expandtabs_no_tab)
  with a show ?thesis by (simp add: munge_whitespace_def map_idI)
qed

lemma nonspace_expandtabs: "nonspace (expandtabs col s) = nonspace s"
  by (induction s arbitrary: col) (auto simp: Let_def py_isspace_def)

lemma nonspace_munge_whitespace: "nonspace (munge_whitespace s) = nonspace s"
proof -
  have "nonspace (map (\<lambda>c. if tw_whitespace c then CHR '' '' else c) u) = nonspace u" for u
    by (induction u) (auto simp: space_isspace tw_whitespace_isspace)
  then show ?thesis by (simp add: munge_whitespace_def nonspace_expandtabs)
qed

subsection \<open>\<open>wrap_text\<close> as a map over the paragraphs\<close>

lemma append_lines_eq: "append_lines fnt max_width wrapped lines = lines @ wrapped"
  by (induction wrapped arbitrary: lines) (simp_all add: Let_def)

definition wrapped_paragraph :: "int \<Rightarrow> string \<Rightarrow> string list" where
  "wrapped_paragraph mc p = wrap_chunks_loop (nat mc) [] (split_chunks p)"

lemma tw_wrap_pos: "0 < mc \<Longrightarrow> tw_wrap p mc = Inr (wrapped_paragraph mc p)"
  by (simp add: tw_wrap_def wrapped_paragraph_def)

lemma wrap_paragraphs_eq:
  "0 < mc \<Longrightarrow>
     wrap_paragraphs fnt max_width mc ps lines
       = Inr (lines @ concat (map (wrapped_paragraph mc) ps))"
  by (induction ps arbitrary: lines) (simp_all add: tw_wrap_pos append_lines_eq)

lemma wrap_text_eq:
  assumes "t \<noteq> []" and "max_chars max_width (bbox_right (getbbox fnt ''x'')) = Inr mc"
    and "0 < mc"
  shows "wrap_text (Some t) fnt max_width
     = Inr (concat (map (wrapped_paragraph mc) (split_on (CHR 0x0A) t)))"
  using assms by (simp add: wrap_text_def wrap_paragraphs_eq)

lemma split_on_single: "sep \<notin> set s \<Longrightarrow> split_on sep s = [s]"
  by (induction s) auto

lemma linefeed_isspace: "py_isspace (CHR 0x0A)"
  by (simp add: py_isspace_def)

subsection \<open>A single word\<close>

lemma wrapped_paragraph_word:
  assumes "\<forall>c \<in> set word. \<not> py_isspace c" and "0 < mc"
  shows "concat (wrapped_paragraph mc word) = word"
    and "\<forall>l \<in> set (wrapped_paragraph mc word). length l \<le> nat mc"
proof -
  from assms(1) have nt: "\<forall>c \<in> set word. \<not> tw_whitespace c"
    using tw_whitespace_isspace by blast
  then have chunks: "split_chunks word = split_from [] word"
    by (simp add: split_chunks_def munge_whitespace_id)
  let ?ls = "wrapped_paragraph mc word"
  have "set (concat ?ls) \<subseteq> set word"
    using wrap_chunks_loop_set[of "nat mc" "[]" "split_from [] word"]
    by (simp add: wrapped_paragraph_def chunks concat_split_from del: set_concat)
  with assms(1) have "nonspace (concat ?ls) = concat ?ls"
    by (intro filter_True) blast
  moreover have "nonspace (concat ?ls) = nonspace word"
    using wrap_chunks_loop_nonspace[of "nat mc" "[]" "split_from [] word"]
    by (simp add: wrapped_paragraph_def chunks concat_split_from)
  moreover from assms(1) have "nonspace word = word" by (intro filter_True) blast
  ultimately show "concat ?ls = word" by simp
  from assms(2) have "1 \<le> nat mc" by simp
  then show "\<forall>l \<in> set ?ls. length l \<le> nat mc"
    using wrap_chunks_loop_length[of "nat mc" _ "[]" "split_chunks word"]
    by (auto simp: wrapped_paragraph_def)
qed

lemma wrapped_paragraph_short_word:
  assumes "\<forall>c \<in> set word. \<not> py_isspace c" and "word \<noteq> []" and "int (length word) \<le> mc"
  shows "wrapped_paragraph mc word = [word]"
proof -
  from assms(1) have nt: "\<forall>c \<in> set word. \<not> tw_whitespace c"
    using tw_whitespace_isspace by blast
  let ?cs = "split_from [] word"
  have chunks: "split_chunks word = ?cs"
    using nt by (simp add: split_chunks_def munge_whitespace_id)
  have cc: "concat ?cs = word" by (rule concat_split_from)
  with assms(2) have ne: "?cs \<noteq> []" by auto
  have hd_ne: "strip (hd ?cs) \<noteq> []" and last_ne: "strip (last ?cs) \<noteq> []"
  proof -
    have *: "strip c \<noteq> []" if "c \<in> set ?cs" for c
    proof -
      from that have "c \<noteq> []" by (rule split_from_nonempty)
      moreover from that have "set c \<subseteq> set (concat ?cs)" by auto
      then have "set c \<subseteq> set word" by (simp only: cc)
      ultimately show ?thesis using assms(1) by (cases c) (auto simp: strip_empty_iff)
    qed
    from ne show "strip (hd ?cs) \<noteq> []" by (intro *) simp
    from ne show "strip (last ?cs) \<noteq> []" by (intro *) simp
  qed
  from assms(3) cc have "0 + length (concat ?cs) \<le> nat mc" by simp
  from fill_line_all[OF this, of "[]"]
  have f: "fill_line (nat mc) [] 0 ?cs = (?cs, length word, [])" by (simp add: cc)
  have "wrap_line (nat mc) False ?cs = (finish_line ?cs, [])"
    using wrap_line_unfold[of "nat mc" ?cs False ?cs "length word" "[]"] f by simp
  moreover have "finish_line ?cs = [word]"
    using ne last_ne cc by (simp add: finish_line_def)
  ultimately have "wrap_line (nat mc) ([] \<noteq> ([]::string list)) ?cs = ([word], [])" by simp
  from wrap_chunks_loop_step[OF ne this]
  show ?thesis by (simp add: wrapped_paragraph_def chunks)
qed

text \<open>
  C2 (as amended). Let the character budget \<open>n\<close> computed from \<open>max_width\<close> and the font
  be positive and the text be a single word (non-empty, no whitespace). Then \<open>wrap_text\<close>
  returns lines whose concatenation is the word, each of at most \<open>n\<close> characters. A word
  of at most \<open>n\<close> characters is returned whole as the only line; a word longer than
  the budget is not kept whole but broken over at least two lines.
\<close>

theorem wrap_text_single_word:
  assumes "max_chars max_width (bbox_right (getbbox fnt ''x'')) = Inr n" and "0 < n"
    and "word \<noteq> []" and "\<forall>c \<in> set word. \<not> py_isspace c"
  shows "\<exists>lines. wrap_text (Some word) fnt max_width = Inr lines
           \<and> concat lines = word
           \<and> (\<forall>l \<in> set lines. length l \<le> nat n)
           \<and> (int (length word) \<le> n \<longrightarrow> lines = [word])
           \<and> (n < int (length word) \<longrightarrow> 2 \<le> length lines)"
proof -
  let ?ls = "wrapped_paragraph n word"
  from assms(4) have "CHR 0x0A \<notin> set word" using linefeed_isspace by blast
  then have "split_on (CHR 0x0A) word = [word]" by (rule split_on_single)
  with wrap_text_eq[OF assms(3) assms(1) assms(2)]
  have w: "wrap_text (Some word) fnt max_width = Inr ?ls" by simp
  have c: "concat ?ls = word" and l: "\<forall>l \<in> set ?ls. length l \<le> nat n"
    using wrapped_paragraph_word[OF assms(4) assms(2)] by auto
  have s: "int (length word) \<le> n \<longrightarrow> ?ls = [word]"
    using wrapped_paragraph_short_word[OF assms(4) assms(3)] by blast
  have b: "n < int (length word) \<longrightarrow> 2 \<le> length ?ls"
  proof
    assume long: "n < int (length word)"
    show "2 \<le> length ?ls"
    proof (rule ccontr)
      assume "\<not> 2 \<le> length ?ls"
      then have "length ?ls = 0 \<or> length ?ls = 1" by linarith
      then show False
      proof
        assume "length ?ls = 0"
        with c assms(3) show False by simp
      next
        assume "length ?ls = 1"
        then obtain x where x: "?ls = [x]" by (cases ?ls) auto
        with c have "x = word" by simp
        with x l have "length word \<le> nat n" by simp
        with long assms(2) show False by simp
      qed
    qed
  qed
  from w c l s b show ?thesis by blast
qed

theorem wrap_text_single_word_witness:
  "max_chars 100 (bbox_right (getbbox (fixed_font 10 20) ''x'')) = Inr 11
   \<and> (\<exists>lines. wrap_text (Some ''abcdefghijklmnopqrstuvwxyz'') (fixed_font 10 20) 100 = Inr lines
         \<and> concat lines = ''abcdefghijklmnopqrstuvwxyz'' \<and> 2 \<le> length lines)
   \<and> wrap_text (Some ''abcdefghijk'') (fixed_font 10 20) 100 = Inr [''abcdefghijk'']"
proof -
  have h1: "max_chars 100 (bbox_right (getbbox (fixed_font 10 20) ''x'')) = Inr 11"
    by code_simp
  have h2: "(0::int) < 11" by simp
  have h3: "''abcdefghijklmnopqrstuvwxyz'' \<noteq> []" and h3': "''abcdefghijk'' \<noteq> []" by simp_all
  have h4: "\<forall>c \<in> set ''abcdefghijklmnopqrstuvwxyz''. \<not> py_isspace c"
    and h4': "\<forall>c \<in> set ''abcdefghijk''. \<not> py_isspace c"
    by (simp_all add: py_isspace_def)
  from wrap_text_single_word[OF h1 h2 h3 h4] wrap_text_single_word[OF h1 h2 h3' h4'] h1
  show ?thesis by auto
qed

text \<open>
  The claim as stated fails: a word of 26 glyphs of 10 pixels each is 260 pixels wide,
  \<open>max_width\<close> is 100 and the budget is 11; the word comes back in three pieces.
\<close>

theorem wrap_text_breaks_long_word:
  "getbbox (fixed_font 10 20) ''abcdefghijklmnopqrstuvwxyz'' = (0, 0, 260, 20)
   \<and> wrap_text (Some ''abcdefghijklmnopqrstuvwxyz'') (fixed_font 10 20) 100
       = Inr [''abcdefghijk'', ''lmnopqrstuv'', ''wxyz'']"
  by code_simp

text \<open>
  C3. The claim is that the budget is at most the naive estimate \<open>max_width /
  avg_char_width\<close>. The source divides by \<open>avg_char_width * 0.9\<close>, which makes the budget
  larger than the estimate: for \<open>max_width = 820\<close> (the front face) and a glyph width of
  30 the estimate is 27.3 and the budget is 30, and a line of 30 glyphs, 900 pixels
  wide, is returned for a \<open>max_width\<close> of 820.
\<close>

theorem max_chars_above_naive_estimate:
  "max_chars 820 30 = Inr 30 \<and> (820::int) div 30 = 27
   \<and> wrap_text (Some (replicate 30 (CHR ''x''))) (fixed_font 30 48) 820
       = Inr [replicate 30 (CHR ''x'')]
   \<and> getbbox (fixed_font 30 48) (replicate 30 (CHR ''x'')) = (0, 0, 900, 48)"
  by code_simp

section \<open>Wrapping and the word sequence\<close>

subsection \<open>Words of concatenations\<close>

definition blank :: "string \<Rightarrow> bool" where
  "blank s = (\<forall>c \<in> set s. py_isspace c)"

definition solid :: "string \<Rightarrow> bool" where
  "solid s = (\<forall>c \<in> set s. \<not> py_isspace c)"

lemma blank_Nil [simp]: "blank []"
  by (simp add: blank_def)

lemma blank_Cons [simp]: "blank (c # cs) = (py_isspace c \<and> blank cs)"
  by (simp add: blank_def)

lemma solid_Cons [simp]: "solid (c # cs) = (\<not> py_isspace c \<and> solid cs)"
  by (simp add: solid_def)

lemma blank_strip: "blank s = (strip s = [])"
  by (simp add: blank_def strip_empty_iff)

lemma blank_hd: "blank s \<Longrightarrow> s \<noteq> [] \<Longrightarrow> py_isspace (hd s)"
  by (cases s) simp_all

lemma blank_take: "blank s \<Longrightarrow> blank (take n s)"
  by (auto simp: blank_def dest: in_set_takeD)

lemma blank_drop: "blank s \<Longrightarrow> blank (drop n s)"
  by (auto simp: blank_def dest: in_set_dropD)

lemma words_of_blank: "blank b \<Longrightarrow> words_of b = []"
  by (induction b) simp_all

lemma words_of_blank_append: "blank b \<Longrightarrow> words_of (b @ s) = words_of s"
  by (induction b) simp_all

lemma words_of_solid_append:
  "solid c \<Longrightarrow> c \<noteq> [] \<Longrightarrow> s = [] \<or> py_isspace (hd s) \<Longrightarrow> words_of (c @ s) = c # words_of s"
proof (induction c)
  case Nil
  then show ?case by simp
next
  case (Cons x xs)
  show ?case
  proof (cases "xs = []")
    case True
    with Cons.prems show ?thesis by auto
  next
    case False
    with Cons.prems have hd: "\<not> py_isspace (hd (xs @ s))" by (cases xs) simp_all
    from False Cons have "words_of (xs @ s) = xs # words_of s" by simp
    with Cons.prems False hd show ?thesis by simp
  qed
qed

lemma words_of_nonempty: "s \<noteq> [] \<Longrightarrow> \<not> py_isspace (hd s) \<Longrightarrow> words_of s \<noteq> []"
  by (cases s) (auto split: list.splits)

lemma words_of_append_blank: "blank b \<Longrightarrow> words_of (s @ b) = words_of s"
proof (induction s)
  case Nil
  then show ?case by (simp add: words_of_blank)
next
  case (Cons c cs)
  show ?case
  proof (cases "cs = []")
    case True
    with Cons.prems show ?thesis
      using blank_hd[of b] by (cases "b = []") (simp_all add: words_of_blank)
  next
    case False
    then have "hd (cs @ b) = hd cs" by simp
    with Cons False show ?thesis by simp
  qed
qed

lemma words_of_append_sep:
  "py_isspace sep \<Longrightarrow> words_of (a @ sep # b) = words_of a @ words_of b"
proof (induction a)
  case Nil
  then show ?case by simp
next
  case (Cons c cs)
  show ?case
  proof (cases "cs = []")
    case True
    with Cons.prems show ?thesis by simp
  next
    case False
    then have hd: "hd (cs @ sep # b) = hd cs" by simp
    show ?thesis
    proof (cases "py_isspace c \<or> py_isspace (hd cs)")
      case True
      with Cons False hd show ?thesis by auto
    next
      case False2: False
      with False have "words_of cs \<noteq> []" by (intro words_of_nonempty) simp_all
      then obtain w ws where w: "words_of cs = w # ws" by (cases "words_of cs") auto
      with Cons False False2 hd show ?thesis by simp
    qed
  qed
qed

lemma words_of_join:
  "py_isspace sep \<Longrightarrow> words_of (join_chr sep ls) = concat (map words_of ls)"
  by (induction sep ls rule: join_chr.induct) (simp_all add: words_of_append_sep)

lemma split_on_nonempty: "split_on sep s \<noteq> []"
  by (induction s) (auto split: list.splits)

lemma join_chr_Cons: "join_chr sep ((c # p) # ps) = c # join_chr sep (p # ps)"
  by (cases ps) simp_all

lemma join_split_on: "join_chr sep (split_on sep t) = t"
proof (induction t)
  case Nil
  show ?case by simp
next
  case (Cons c cs)
  obtain p ps where s: "split_on sep cs = p # ps"
    using split_on_nonempty[of sep cs] by (cases "split_on sep cs") auto
  with Cons show ?case by (simp add: join_chr_Cons)
qed

lemma set_split_on: "p \<in> set (split_on sep t) \<Longrightarrow> set p \<subseteq> set t"
proof (induction t arbitrary: p)
  case Nil
  then show ?case by simp
next
  case (Cons c cs)
  obtain q qs where s: "split_on sep cs = q # qs"
    using split_on_nonempty[of sep cs] by (cases "split_on sep cs") auto
  from Cons.prems s have "p = [] \<or> p \<in> set (split_on sep cs) \<or> p = c # q"
    by (auto split: if_splits)
  then show ?case using Cons.IH[of p] Cons.IH[of q] s by auto
qed

subsection \<open>Chunks that alternate between words and whitespace\<close>

text \<open>
  A chunk list is good for a width when every chunk is non-empty and is either blank or
  a word (no whitespace in it) no longer than the width, and a word is followed by a
  blank chunk or by nothing.
\<close>

fun good_chunks :: "nat \<Rightarrow> string list \<Rightarrow> bool" where
  "good_chunks w [] = True"
| "good_chunks w (c # cs) =
     (c \<noteq> [] \<and> (blank c \<or> (solid c \<and> length c \<le> w \<and> (cs = [] \<or> blank (hd cs))))
      \<and> good_chunks w cs)"

lemma good_chunks_append: "good_chunks w (a @ b) \<Longrightarrow> good_chunks w a \<and> good_chunks w b"
  by (induction a) (auto simp: hd_append split: if_splits)

lemma good_chunks_start:
  "good_chunks w cs \<Longrightarrow> cs = [] \<or> blank (hd cs) \<Longrightarrow>
     concat cs = [] \<or> py_isspace (hd (concat cs))"
  by (cases cs) (auto simp: blank_hd)

lemma good_chunks_words_append:
  "good_chunks w (a @ b) \<Longrightarrow>
     words_of (concat (a @ b)) = words_of (concat a) @ words_of (concat b)"
proof (induction a)
  case Nil
  show ?case by simp
next
  case (Cons c a)
  from Cons.prems have g: "good_chunks w (a @ b)" and ne: "c \<noteq> []" by simp_all
  from good_chunks_append[OF g] have ga: "good_chunks w a" by simp
  note ih = Cons.IH[OF g]
  show ?case
  proof (cases "blank c")
    case True
    with ih show ?thesis by (simp add: words_of_blank_append)
  next
    case False
    with Cons.prems have s: "solid c" and nx: "a @ b = [] \<or> blank (hd (a @ b))" by auto
    from nx have nxa: "a = [] \<or> blank (hd a)" by (cases a) auto
    have 1: "words_of (c @ concat (a @ b)) = c # words_of (concat (a @ b))"
      using s ne good_chunks_start[OF g nx] by (rule words_of_solid_append)
    have 2: "words_of (c @ concat a) = c # words_of (concat a)"
      using s ne good_chunks_start[OF ga nxa] by (rule words_of_solid_append)
    from 1 2 ih show ?thesis by simp
  qed
qed

lemma blank_no_hyphen: "blank c \<Longrightarrow> rfind_hyphen c e = None"
proof (rule ccontr)
  assume b: "blank c" and "rfind_hyphen c e \<noteq> None"
  then obtain h where "rfind_hyphen c e = Some h" by auto
  from rfind_hyphen_less[OF this] have "h < length c" "is_hyphen (c ! h)" by simp_all
  then have "\<exists>x \<in> set c. is_hyphen x" by (metis nth_mem)
  with b show False by (auto simp: blank_def dest: hyphen_not_space)
qed

lemma break_point_blank: "blank c \<Longrightarrow> break_point c space_left = space_left"
  by (simp add: break_point_def blank_no_hyphen)

lemma words_finish_line: "concat (map words_of (finish_line cl)) = words_of (concat cl)"
proof (cases "cl = []")
  case True
  then show ?thesis by (simp add: finish_line_def)
next
  case False
  then have split: "concat cl = concat (butlast cl) @ last cl"
    by (metis append_butlast_last_id concat_append concat.simps append_Nil2)
  show ?thesis
  proof (cases "strip (last cl) = []")
    case True
    then have b: "blank (last cl)" by (simp add: blank_strip)
    have w: "words_of (concat cl) = words_of (concat (butlast cl))"
      unfolding split using b by (rule words_of_append_blank)
    show ?thesis
    proof (cases "butlast cl = []")
      case True
      with w False \<open>strip (last cl) = []\<close> show ?thesis by (simp add: finish_line_def)
    next
      case False3: False
      with w False \<open>strip (last cl) = []\<close> show ?thesis by (simp add: finish_line_def)
    qed
  next
    case False2: False
    with False show ?thesis by (simp add: finish_line_def)
  qed
qed

text \<open>A pass over good chunks keeps the words and leaves good chunks.\<close>

lemma wrap_line_words:
  assumes good: "good_chunks w chunks" and ne: "chunks \<noteq> []" and w1: "1 \<le> w"
    and wl: "wrap_line w has_lines chunks = (new, rest)"
  shows "good_chunks w rest"
    and "concat (map words_of new) @ words_of (concat rest) = words_of (concat chunks)"
proof -
  define chunks1 where
    "chunks1 = (if strip (hd chunks) = [] \<and> has_lines then tl chunks else chunks)"
  obtain cl len chunks2 where f: "fill_line w [] 0 chunks1 = (cl, len, chunks2)"
    by (cases "fill_line w [] 0 chunks1") auto
  from ne obtain c0 cs0 where c0: "chunks = c0 # cs0" by (cases chunks) auto
  have g1: "good_chunks w chunks1" using good c0 by (simp add: chunks1_def)
  have w1': "words_of (concat chunks1) = words_of (concat chunks)"
    using c0 by (simp add: chunks1_def words_of_blank_append blank_strip)
  from fill_line_append[OF f] have app: "cl @ chunks2 = chunks1" by simp
  from g1 app have gs: "good_chunks w cl" "good_chunks w chunks2"
    using good_chunks_append[of w cl chunks2] by simp_all
  from g1 app have ws: "words_of (concat chunks1) = words_of (concat cl) @ words_of (concat chunks2)"
    using good_chunks_words_append[of w cl chunks2] by simp
  from f have "fill_line w [] (length (concat ([]::string list))) chunks1 = (cl, len, chunks2)"
    by simp
  then have len: "len = length (concat cl)" by (rule fill_line_len)
  from fill_line_le[OF f] have le: "len \<le> w" by simp
  have "good_chunks w rest
      \<and> concat (map words_of new) @ words_of (concat rest) = words_of (concat chunks)"
  proof (cases "chunks2 \<noteq> [] \<and> w < length (hd chunks2)")
    case True
    then obtain c rest2 where c: "chunks2 = c # rest2" by (cases chunks2) auto
    with True have long: "w < length c" by simp
    from gs(2) c long have bc: "blank c" and cne: "c \<noteq> []" and g2: "good_chunks w rest2"
      by auto
    define sl where "sl = w - len"
    from le long have sl: "sl < length c" by (simp add: sl_def)
    have h: "handle_long_word chunks2 cl len w = (drop sl c # rest2, cl @ [take sl c])"
      using c w1 by (simp add: Let_def break_point_blank[OF bc] sl_def)
    from True h wl have nr: "new = finish_line (cl @ [take sl c])" "rest = drop sl c # rest2"
      using wrap_line_unfold[of w chunks has_lines cl len chunks2] f
      unfolding chunks1_def by auto
    have "good_chunks w rest"
      using nr(2) g2 sl blank_drop[OF bc, of sl] by simp
    moreover have "concat (map words_of new) = words_of (concat cl)"
      unfolding nr(1) words_finish_line using blank_take[OF bc, of sl]
      by (simp add: words_of_append_blank)
    moreover have "words_of (concat rest) = words_of (concat chunks2)"
      unfolding nr(2) c using blank_drop[OF bc, of sl] bc
      by (simp add: words_of_blank_append)
    ultimately show ?thesis using ws w1' by simp
  next
    case False
    with wl have nr: "new = finish_line cl" "rest = chunks2"
      using wrap_line_unfold[of w chunks has_lines cl len chunks2] f
      unfolding chunks1_def by auto
    with gs ws w1' show ?thesis by (simp add: words_finish_line)
  qed
  then show "good_chunks w rest"
    and "concat (map words_of new) @ words_of (concat rest) = words_of (concat chunks)"
    by simp_all
qed

lemma wrap_chunks_loop_words:
  "good_chunks w chunks \<Longrightarrow> 1 \<le> w \<Longrightarrow>
     concat (map words_of (wrap_chunks_loop w lines chunks))
       = concat (map words_of lines) @ words_of (concat chunks)"
proof (induction w lines chunks rule: wrap_chunks_loop.induct)
  case (1 width lines chunks)
  show ?case
  proof (cases "chunks = []")
    case True
    then show ?thesis by simp
  next
    case False
    obtain new rest where wl: "wrap_line width (lines \<noteq> []) chunks = (new, rest)"
      by (cases "wrap_line width (lines \<noteq> []) chunks") auto
    note step = wrap_line_words[OF 1(2) False 1(3) wl]
    from 1(1)[OF False refl wl[symmetric] step(1) 1(3)]
    have "concat (map words_of (wrap_chunks_loop width (lines @ new) rest))
        = concat (map words_of (lines @ new)) @ words_of (concat rest)" .
    moreover have "wrap_chunks_loop width lines chunks = wrap_chunks_loop width (lines @ new) rest"
      using False wl by (rule wrap_chunks_loop_step)
    ultimately show ?thesis using step(2) by simp
  qed
qed

subsection \<open>The chunks of a text without hyphens\<close>

lemma word_match_no_hyphen:
  "\<forall>x \<in> set cs. \<not> is_hyphen x \<Longrightarrow>
     word_match prev (c # cs) = Suc (length (takeWhile (\<lambda>x. \<not> tw_whitespace x) cs))"
proof (induction cs arbitrary: prev c)
  case Nil
  show ?case by (simp add: hyphen_break_def)
next
  case (Cons d ds)
  from Cons.prems have nh: "\<not> is_hyphen d" and rest: "\<forall>x \<in> set ds. \<not> is_hyphen x" by simp_all
  from nh have hb: "\<not> hyphen_break (c # prev) (d # ds)" by (simp add: hyphen_break_def)
  from nh have dw: "\<not> dashes_then_word (d # ds)" by (simp add: dashes_then_word_def)
  show ?case
  proof (cases "tw_whitespace d")
    case True
    with hb show ?thesis by simp
  next
    case False
    with hb dw Cons.IH[OF rest, of "c # prev" d] show ?thesis by simp
  qed
qed

lemma wordsep_match_no_hyphen:
  assumes "\<forall>x \<in> set (c # cs). \<not> is_hyphen x"
  shows "wordsep_match prev (c # cs)
     = length (takeWhile (\<lambda>x. tw_whitespace x = tw_whitespace c) (c # cs))"
proof (cases "tw_whitespace c")
  case True
  then have "(\<lambda>x. tw_whitespace x = tw_whitespace c) = tw_whitespace" by auto
  with True show ?thesis by (simp add: wordsep_match_def)
next
  case False
  then have q: "(\<lambda>x. tw_whitespace x = tw_whitespace c) = (\<lambda>x. \<not> tw_whitespace x)" by auto
  from assms have "\<not> is_hyphen c" and rest: "\<forall>x \<in> set cs. \<not> is_hyphen x" by simp_all
  then have "\<not> dashes_then_word (c # cs)" by (simp add: dashes_then_word_def)
  with False word_match_no_hyphen[OF rest, of prev c] show ?thesis
    by (simp add: wordsep_match_def q)
qed

lemma split_from_no_hyphen:
  assumes "\<forall>x \<in> set (c # cs). \<not> is_hyphen x"
  shows "\<exists>prev'. split_from prev (c # cs)
     = takeWhile (\<lambda>x. tw_whitespace x = tw_whitespace c) (c # cs)
         # split_from prev' (dropWhile (\<lambda>x. tw_whitespace x = tw_whitespace c) (c # cs))"
proof -
  let ?Q = "\<lambda>x. tw_whitespace x = tw_whitespace c"
  have n: "wordsep_match prev (c # cs) = length (takeWhile ?Q (c # cs))"
    using assms by (rule wordsep_match_no_hyphen)
  have "take (length (takeWhile ?Q (c # cs))) (c # cs) = takeWhile ?Q (c # cs)"
    by (rule takeWhile_eq_take[symmetric])
  moreover have "drop (length (takeWhile ?Q (c # cs))) (c # cs) = dropWhile ?Q (c # cs)"
    by (rule dropWhile_eq_drop[symmetric])
  ultimately show ?thesis
    by (subst split_from.simps) (simp only: Let_def n, blast)
qed

lemma takeWhile_all: "\<forall>x \<in> set (takeWhile P s). P x"
  by (induction s) auto

lemma takeWhile_subset: "set (takeWhile P s) \<subseteq> set s"
  by (induction s) auto

lemma dropWhile_subset: "set (dropWhile P s) \<subseteq> set s"
  by (induction s) auto

lemma split_from_hd_blank:
  assumes "\<forall>x \<in> set r. \<not> is_hyphen x" and "r = [] \<or> tw_whitespace (hd r)"
  shows "split_from prev r = [] \<or> blank (hd (split_from prev r))"
proof (cases r)
  case Nil
  then show ?thesis by simp
next
  case (Cons d ds)
  with assms(2) have d: "tw_whitespace d" by simp
  from assms(1) Cons have "\<forall>x \<in> set (d # ds). \<not> is_hyphen x" by simp
  from split_from_no_hyphen[OF this, of prev]
  obtain p2 where sp: "split_from prev (d # ds)
      = takeWhile (\<lambda>x. tw_whitespace x = tw_whitespace d) (d # ds)
        # split_from p2 (dropWhile (\<lambda>x. tw_whitespace x = tw_whitespace d) (d # ds))"
    by blast
  have "\<forall>x \<in> set (takeWhile (\<lambda>x. tw_whitespace x = tw_whitespace d) (d # ds)).
      tw_whitespace x = tw_whitespace d" by (rule takeWhile_all)
  with d have "blank (takeWhile (\<lambda>x. tw_whitespace x = tw_whitespace d) (d # ds))"
    unfolding blank_def using tw_whitespace_isspace by blast
  with sp Cons show ?thesis by (simp only: list.sel) simp
qed

lemma split_from_good:
  assumes "\<forall>x \<in> set s. \<not> is_hyphen x"
    and "\<forall>x \<in> set s. py_isspace x \<longrightarrow> tw_whitespace x"
    and "\<forall>x \<in> set (words_of s). length x \<le> w"
  shows "good_chunks w (split_from prev s)"
  using assms
proof (induction s arbitrary: prev rule: length_induct)
  case (1 s)
  show ?case
  proof (cases s)
    case Nil
    then show ?thesis by simp
  next
    case (Cons c cs)
    define k where "k = takeWhile (\<lambda>x. tw_whitespace x = tw_whitespace c) s"
    define r where "r = dropWhile (\<lambda>x. tw_whitespace x = tw_whitespace c) s"
    from 1(2) Cons have "\<forall>x \<in> set (c # cs). \<not> is_hyphen x" by simp
    from split_from_no_hyphen[OF this, of prev] Cons
    obtain prev' where sp: "split_from prev s = k # split_from prev' r"
      unfolding k_def r_def by blast
    have kne: "k \<noteq> []" unfolding k_def Cons by simp
    have s_eq: "s = k @ r" unfolding k_def r_def by simp
    have shorter: "length r < length s" using kne by (simp add: s_eq)
    have sub: "set r \<subseteq> set s" unfolding r_def by (rule dropWhile_subset)
    have ksub: "set k \<subseteq> set s" unfolding k_def by (rule takeWhile_subset)
    have kall: "\<forall>x \<in> set k. tw_whitespace x = tw_whitespace c"
      unfolding k_def by (rule takeWhile_all)
    have rhd: "r = [] \<or> tw_whitespace (hd r) \<noteq> tw_whitespace c"
      unfolding r_def using hd_dropWhile[of "\<lambda>x. tw_whitespace x = tw_whitespace c" s]
      by blast
    have nh_r: "\<forall>x \<in> set r. \<not> is_hyphen x" using 1(2) sub by blast
    have cls_r: "\<forall>x \<in> set r. py_isspace x \<longrightarrow> tw_whitespace x" using 1(3) sub by blast
    show ?thesis
    proof (cases "tw_whitespace c")
      case True
      with kall have "blank k" unfolding blank_def using tw_whitespace_isspace by blast
      then have "words_of (k @ r) = words_of r" by (rule words_of_blank_append)
      then have "words_of s = words_of r" by (simp only: s_eq[symmetric])
      with 1(4) have len_r: "\<forall>x \<in> set (words_of r). length x \<le> w" by simp
      from 1(1) shorter nh_r cls_r len_r have "good_chunks w (split_from prev' r)" by blast
      with kne \<open>blank k\<close> show ?thesis unfolding sp by simp
    next
      case False
      with kall have "\<forall>x \<in> set k. \<not> tw_whitespace x" by blast
      with ksub 1(3) have sk: "solid k" unfolding solid_def by blast
      from rhd False have nx: "r = [] \<or> tw_whitespace (hd r)" by blast
      then have "r = [] \<or> py_isspace (hd r)" using tw_whitespace_isspace by blast
      with sk kne have "words_of (k @ r) = k # words_of r" by (rule words_of_solid_append)
      then have w: "words_of s = k # words_of r" by (simp only: s_eq[symmetric])
      with 1(4) have len_k: "length k \<le> w"
        and len_r: "\<forall>x \<in> set (words_of r). length x \<le> w" by simp_all
      from 1(1) shorter nh_r cls_r len_r have "good_chunks w (split_from prev' r)" by blast
      moreover from nh_r nx have "split_from prev' r = [] \<or> blank (hd (split_from prev' r))"
        by (rule split_from_hd_blank)
      ultimately show ?thesis using kne sk len_k unfolding sp by simp
    qed
  qed
qed

subsection \<open>Whitespace replacement keeps the words\<close>

lemma expandtabs_Nil_iff: "expandtabs col s = [] \<longleftrightarrow> s = []"
  by (cases s) (auto simp: Let_def)

lemma tab_isspace: "py_isspace (CHR 0x09)"
  by (simp add: py_isspace_def)

lemma hd_expandtabs_isspace:
  "s \<noteq> [] \<Longrightarrow> py_isspace (hd (expandtabs col s)) = py_isspace (hd s)"
proof (cases s)
  case Nil
  assume "s \<noteq> []"
  with Nil show ?thesis by simp
next
  case (Cons c cs)
  have "0 < 8 - col mod 8" by simp
  then obtain k where k: "8 - col mod 8 = Suc k" by (cases "8 - col mod 8") auto
  show ?thesis using Cons k by (auto simp: Let_def tab_isspace space_isspace)
qed

lemma words_of_expandtabs: "words_of (expandtabs col s) = words_of s"
proof (induction s arbitrary: col)
  case Nil
  show ?case by simp
next
  case (Cons c cs)
  show ?case
  proof (cases "c = CHR 0x09")
    case True
    have "blank (replicate (8 - col mod 8) (CHR '' ''))"
      by (simp add: blank_def space_isspace)
    then have "words_of (replicate (8 - col mod 8) (CHR '' '') @ expandtabs (col + (8 - col mod 8)) cs)
        = words_of (expandtabs (col + (8 - col mod 8)) cs)" by (rule words_of_blank_append)
    with True Cons show ?thesis by (simp add: Let_def tab_isspace)
  next
    case False
    define col' where "col' = (if c = CHR 0x0A \<or> c = CHR 0x0D then 0 else col + 1)"
    from False have e: "expandtabs col (c # cs) = c # expandtabs col' cs"
      by (simp add: col'_def)
    show ?thesis
      unfolding e using Cons[of col'] expandtabs_Nil_iff[of col' cs]
        hd_expandtabs_isspace[of cs col']
      by (cases "cs = []") simp_all
  qed
qed

lemma words_of_munge_whitespace: "words_of (munge_whitespace s) = words_of s"
proof -
  let ?f = "\<lambda>c. if tw_whitespace c then CHR '' '' else c"
  have f: "py_isspace (?f c) = py_isspace c" for c
    by (simp add: space_isspace tw_whitespace_isspace)
  have g: "\<not> py_isspace c \<Longrightarrow> ?f c = c" for c
    using tw_whitespace_isspace by auto
  have "words_of (map ?f u) = words_of u" for u
  proof (induction u)
    case Nil
    show ?case by simp
  next
    case (Cons c cs)
    have hd: "cs \<noteq> [] \<Longrightarrow> py_isspace (hd (map ?f cs)) = py_isspace (hd cs)"
      using f by (cases cs) simp_all
    show ?case
    proof (cases "py_isspace c")
      case True
      with Cons f[of c] show ?thesis by (simp del: if_split)
    next
      case False
      with g have "?f c = c" by blast
      with False Cons hd show ?thesis by (cases "cs = []") (simp_all del: if_split)
    qed
  qed
  then show ?thesis by (simp add: munge_whitespace_def words_of_expandtabs)
qed

lemma set_expandtabs: "set (expandtabs col s) \<subseteq> insert (CHR '' '') (set s)"
  by (induction s arbitrary: col) (auto simp: Let_def)

subsection \<open>Paragraphs and the whole text\<close>

lemma wrapped_paragraph_words:
  assumes "0 < mc"
    and nh: "\<forall>x \<in> set p. \<not> is_hyphen x"
    and cls: "\<forall>x \<in> set p. py_isspace x \<longrightarrow> tw_whitespace x"
    and len: "\<forall>x \<in> set (words_of p). int (length x) \<le> mc"
  shows "concat (map words_of (wrapped_paragraph mc p)) = words_of p"
proof -
  let ?m = "munge_whitespace p"
  have sub: "set ?m \<subseteq> insert (CHR '' '') {x \<in> set p. \<not> tw_whitespace x}"
    using set_expandtabs[of 0 p] by (auto simp: munge_whitespace_def)
  have sp: "tw_whitespace (CHR '' '')" "\<not> is_hyphen (CHR '' '')"
    by (simp_all add: tw_whitespace_def is_hyphen_def)
  have 1: "\<forall>x \<in> set ?m. \<not> is_hyphen x" using sub nh sp by blast
  have 2: "\<forall>x \<in> set ?m. py_isspace x \<longrightarrow> tw_whitespace x" using sub cls sp by blast
  have 3: "\<forall>x \<in> set (words_of ?m). length x \<le> nat mc"
    using len by (auto simp: words_of_munge_whitespace)
  have "good_chunks (nat mc) (split_from [] ?m)" using 1 2 3 by (rule split_from_good)
  moreover from assms(1) have "1 \<le> nat mc" by simp
  ultimately have "concat (map words_of (wrap_chunks_loop (nat mc) [] (split_from [] ?m)))
      = concat (map words_of []) @ words_of (concat (split_from [] ?m))"
    by (rule wrap_chunks_loop_words)
  then show ?thesis
    by (simp add: wrapped_paragraph_def split_chunks_def concat_split_from
        words_of_munge_whitespace)
qed

lemma concat_concat_map: "concat (concat (map f xs)) = concat (map (\<lambda>x. concat (f x)) xs)"
  by (induction xs) simp_all

lemma words_of_paragraphs: "concat (map words_of (split_on (CHR 0x0A) t)) = words_of t"
  using words_of_join[OF linefeed_isspace, of "split_on (CHR 0x0A) t"]
  by (simp add: join_split_on)

text \<open>
  C1 (as amended). Let the character budget \<open>n\<close> computed from \<open>max_width\<close> and the font be
  positive, and let the text \<open>t\<close> hold at least one word, no hyphen and no whitespace
  character other than the six ASCII ones, each of its words being at most \<open>n\<close> characters
  long. Then \<open>wrap_text\<close> returns a non-empty sequence of lines, and the lines joined
  with single spaces have exactly the word sequence of \<open>t\<close>: line by line, the words of
  the lines are the words of \<open>t\<close> in order, none lost, duplicated or split.
\<close>

theorem wrap_text_keeps_words:
  assumes "max_chars max_width (bbox_right (getbbox fnt ''x'')) = Inr n" and "0 < n"
    and "words_of t \<noteq> []"
    and "\<forall>c \<in> set t. c \<noteq> CHR ''-''"
    and "\<forall>c \<in> set t. py_isspace c \<longrightarrow> tw_whitespace c"
    and "\<forall>w \<in> set (words_of t). int (length w) \<le> n"
  shows "\<exists>lines. wrap_text (Some t) fnt max_width = Inr lines
           \<and> lines \<noteq> []
           \<and> words_of (join_chr (CHR '' '') lines) = words_of t
           \<and> concat (map words_of lines) = words_of t"
proof -
  let ?ps = "split_on (CHR 0x0A) t"
  let ?ls = "concat (map (wrapped_paragraph n) ?ps)"
  from assms(3) have "t \<noteq> []" by auto
  from wrap_text_eq[OF this assms(1) assms(2)]
  have w: "wrap_text (Some t) fnt max_width = Inr ?ls" .
  have para: "concat (map words_of (wrapped_paragraph n p)) = words_of p"
    if "p \<in> set ?ps" for p
  proof -
    from that have sub: "set p \<subseteq> set t" by (rule set_split_on)
    from that have "set (words_of p) \<subseteq> set (concat (map words_of ?ps))" by auto
    then have wsub: "set (words_of p) \<subseteq> set (words_of t)"
      by (simp only: words_of_paragraphs)
    show ?thesis
    proof (rule wrapped_paragraph_words[OF assms(2)])
      show "\<forall>x \<in> set p. \<not> is_hyphen x" using sub assms(4) by (auto simp: is_hyphen_def)
      show "\<forall>x \<in> set p. py_isspace x \<longrightarrow> tw_whitespace x" using sub assms(5) by blast
      show "\<forall>x \<in> set (words_of p). int (length x) \<le> n" using wsub assms(6) by blast
    qed
  qed
  have "concat (map words_of ?ls)
      = concat (map (\<lambda>p. concat (map words_of (wrapped_paragraph n p))) ?ps)"
    by (simp add: map_concat comp_def concat_concat_map)
  also have "\<dots> = concat (map words_of ?ps)"
    using para by (simp cong: map_cong)
  also have "\<dots> = words_of t" by (rule words_of_paragraphs)
  finally have c: "concat (map words_of ?ls) = words_of t" .
  have j: "words_of (join_chr (CHR '' '') ?ls) = words_of t"
    using words_of_join[OF space_isspace, of ?ls] c by simp
  have "?ls \<noteq> []"
  proof
    assume "?ls = []"
    then have "concat (map words_of ?ls) = []" by (simp only: list.map concat.simps)
    with c assms(3) show False by simp
  qed
  with w j c show ?thesis by blast
qed

theorem wrap_text_keeps_words_witness:
  "max_chars 100 (bbox_right (getbbox (fixed_font 10 20) ''x'')) = Inr 11
   \<and> words_of ''The quick brown fox jumps''
       = [''The'', ''quick'', ''brown'', ''fox'', ''jumps'']
   \<and> wrap_text (Some ''The quick brown fox jumps'') (fixed_font 10 20) 100
       = Inr [''The quick'', ''brown fox'', ''jumps'']
   \<and> words_of (join_chr (CHR '' '') [''The quick'', ''brown fox'', ''jumps''])
       = [''The'', ''quick'', ''brown'', ''fox'', ''jumps'']"
proof -
  have h1: "max_chars 100 (bbox_right (getbbox (fixed_font 10 20) ''x'')) = Inr 11"
    by code_simp
  have h2: "(0::int) < 11" by simp
  have ws: "words_of ''The quick brown fox jumps''
       = [''The'', ''quick'', ''brown'', ''fox'', ''jumps'']" by code_simp
  then have h3: "words_of ''The quick brown fox jumps'' \<noteq> []" by simp
  have h4: "\<forall>c \<in> set ''The quick brown fox jumps''. c \<noteq> CHR ''-''" by simp
  have h5: "\<forall>c \<in> set ''The quick brown fox jumps''. py_isspace c \<longrightarrow> tw_whitespace c"
    by (simp add: py_isspace_def tw_whitespace_def)
  have h6: "\<forall>w \<in> set (words_of ''The quick brown fox jumps''). int (length w) \<le> 11"
    unfolding ws by simp
  have e: "wrap_text (Some ''The quick brown fox jumps'') (fixed_font 10 20) 100
       = Inr [''The quick'', ''brown fox'', ''jumps'']" by code_simp
  from wrap_text_keeps_words[OF h1 h2 h3 h4 h5 h6] e h1 ws show ?thesis by auto
qed

text \<open>
  The claim as stated fails. With a glyph width of 10: a text of one space gives no line
  at all; a word of 26 characters is broken into three lines for a budget of 11; for a
  budget of 10 the word \<open>well-known\<close> is split after its hyphen, so that the joined lines
  have the words \<open>a\<close>, \<open>well-\<close>, \<open>known\<close>; and a positive \<open>max_width\<close> of 8 gives the budget 0,
  on which \<open>textwrap.wrap\<close> raises \<open>ValueError\<close>.
\<close>

theorem wrap_text_loses_word_sequence:
  "wrap_text (Some '' '') (fixed_font 10 20) 100 = Inr []
   \<and> wrap_text (Some ''abcdefghijklmnopqrstuvwxyz'') (fixed_font 10 20) 100
       = Inr [''abcdefghijk'', ''lmnopqrstuv'', ''wxyz'']
   \<and> wrap_text (Some ''a well-known'') (fixed_font 10 20) 90 = Inr [''a well-'', ''known'']
   \<and> words_of (join_chr (CHR '' '') [''a well-'', ''known'']) = [''a'', ''well-'', ''known'']
   \<and> words_of ''a well-known'' = [''a'', ''well-known'']
   \<and> wrap_text (Some ''a'') (fixed_font 10 20) 8 = Inl ValueError"
  by code_simp

section \<open>Properties of \<open>fetch_batch_questions\<close>\<close>

lemma length_sample: "length (sample rs pool k) = min k (length pool)"
proof (induction k arbitrary: rs pool)
  case 0
  show ?case by simp
next
  case (Suc k)
  show ?case
  proof (cases "pool = []")
    case True
    then show ?thesis by simp
  next
    case False
    define i where "i = (case rs of [] \<Rightarrow> 0 | r # _ \<Rightarrow> r mod length pool)"
    from False have i: "i < length pool" by (auto simp: i_def split: list.splits)
    then have "length (take i pool @ drop (Suc i) pool) = length pool - 1" by simp
    with Suc[of "tl rs" "take i pool @ drop (Suc i) pool"] False i
    show ?thesis by (simp add: i_def[symmetric] Let_def)
  qed
qed

lemma set_sample: "set (sample rs pool k) \<subseteq> set pool"
proof (induction k arbitrary: rs pool)
  case 0
  show ?case by simp
next
  case (Suc k)
  show ?case
  proof (cases "pool = []")
    case True
    then show ?thesis by simp
  next
    case False
    define i where "i = (case rs of [] \<Rightarrow> 0 | r # _ \<Rightarrow> r mod length pool)"
    from False have i: "i < length pool" by (auto simp: i_def split: list.splits)
    have "set (take i pool @ drop (Suc i) pool) \<subseteq> set pool"
      using set_take_subset[of i pool] set_drop_subset[of "Suc i" pool] by simp
    with Suc[of "tl rs" "take i pool @ drop (Suc i) pool"] False i
    show ?thesis by (auto simp: i_def[symmetric] Let_def)
  qed
qed

lemma final_pool_no_image: "c \<in> set (final_pool all_cards used_ids count) \<Longrightarrow> \<not> has_image c"
  by (auto simp: final_pool_def relaxed_pool_def fresh_short_def split: if_splits)

lemma relaxed_pool_fresh:
  "c \<in> set (relaxed_pool all_cards used_ids count) \<Longrightarrow> card_id c \<notin> set used_ids"
  by (auto simp: relaxed_pool_def fresh_short_def split: if_splits)

lemma final_pool_nonempty:
  "\<exists>c \<in> set all_cards. \<not> has_image c \<Longrightarrow> final_pool all_cards used_ids count \<noteq> []"
  by (auto simp: final_pool_def filter_empty_conv)

lemma fetch_batch_questions_Some:
  "0 \<le> count \<Longrightarrow>
     fetch_batch_questions rs (Some all_cards) used_ids count
       = Inr (sample rs (final_pool all_cards used_ids count)
                (nat (min (int (length (final_pool all_cards used_ids count))) count)))"
  by (simp add: fetch_batch_questions_def Let_def)

lemma fetch_batch_questions_subset:
  "fetch_batch_questions rs (Some all_cards) used_ids count = Inr batch \<Longrightarrow>
     set batch \<subseteq> set (final_pool all_cards used_ids count)"
  using set_sample[of rs "final_pool all_cards used_ids count"]
  by (auto simp: fetch_batch_questions_def Let_def split: if_splits)

text \<open>
  C4 (as amended). For every question bank and every requested batch size \<open>count \<ge> 0\<close>,
  the selector returns \<open>min(count, n)\<close> records, where \<open>n\<close> is the size of the pool left by
  the relaxation: the fresh records under the length ceiling if they are at least
  \<open>count\<close>, otherwise the fresh records without the ceiling if there is any, otherwise
  (history ignored) all records without image. So the batch has the requested size
  exactly when that pool holds at least \<open>count\<close> records, and it is non-empty whenever
  \<open>count \<ge> 1\<close> and the bank has a record without image.
\<close>

theorem fetch_batch_length:
  assumes "0 \<le> count"
  shows "\<exists>batch. fetch_batch_questions rs (Some all_cards) used_ids count = Inr batch
           \<and> int (length batch) = min count (int (length (final_pool all_cards used_ids count)))
           \<and> (0 < count \<and> (\<exists>c \<in> set all_cards. \<not> has_image c) \<longrightarrow> batch \<noteq> [])"
proof -
  let ?pool = "final_pool all_cards used_ids count"
  let ?batch = "sample rs ?pool (nat (min (int (length ?pool)) count))"
  have f: "fetch_batch_questions rs (Some all_cards) used_ids count = Inr ?batch"
    using assms by (rule fetch_batch_questions_Some)
  have l: "int (length ?batch) = min count (int (length ?pool))"
    using assms by (simp add: length_sample)
  have n: "0 < count \<and> (\<exists>c \<in> set all_cards. \<not> has_image c) \<longrightarrow> ?batch \<noteq> []"
  proof
    assume a: "0 < count \<and> (\<exists>c \<in> set all_cards. \<not> has_image c)"
    then have "?pool \<noteq> []" using final_pool_nonempty by blast
    then have "0 < length ?pool" by simp
    with a l have "0 < int (length ?batch)" by simp
    then show "?batch \<noteq> []" by auto
  qed
  from f l n show ?thesis by blast
qed

text \<open>
  C8. When the history-reset branch is not taken (the pool after the first relaxation is
  not empty), no selected record has its id in the history.
\<close>

theorem fetch_respects_history:
  assumes "relaxed_pool all_cards used_ids count \<noteq> []"
    and "fetch_batch_questions rs (Some all_cards) used_ids count = Inr batch"
  shows "\<forall>c \<in> set batch. card_id c \<notin> set used_ids"
proof
  fix c assume "c \<in> set batch"
  with fetch_batch_questions_subset[OF assms(2)]
  have "c \<in> set (final_pool all_cards used_ids count)" by blast
  with assms(1) have "c \<in> set (relaxed_pool all_cards used_ids count)"
    by (simp add: final_pool_def)
  then show "card_id c \<notin> set used_ids" by (rule relaxed_pool_fresh)
qed

text \<open>
  C9. Whatever the bank, the history and the batch size, the selector returns a batch
  for every \<open>count \<ge> 0\<close>, and no record of a returned batch has a truthy \<open>image\<close>: each of
  the three filters asks for \<open>not c.get('image')\<close>.
\<close>

theorem fetch_never_image:
  "(0 \<le> count \<longrightarrow> (\<exists>batch. fetch_batch_questions rs bank used_ids count = Inr batch))
   \<and> (\<forall>batch. fetch_batch_questions rs bank used_ids count = Inr batch
         \<longrightarrow> (\<forall>c \<in> set batch. \<not> has_image c))"
proof (cases bank)
  case None
  then show ?thesis by (simp add: fetch_batch_questions_def)
next
  case (Some all_cards)
  have "\<exists>batch. fetch_batch_questions rs bank used_ids count = Inr batch" if "0 \<le> count"
    using that Some fetch_batch_questions_Some by blast
  moreover have "\<not> has_image c"
    if "fetch_batch_questions rs bank used_ids count = Inr batch" and "c \<in> set batch"
    for batch c
    using that Some fetch_batch_questions_subset final_pool_no_image by blast
  ultimately show ?thesis by blast
qed

theorem fetch_batch_length_witness:
  "fetch_batch_questions [0, 0] (Some example_bank) [] 2
     = Inr [example_card ''q1'', example_card ''q2'']
   \<and> int (length [example_card ''q1'', example_card ''q2''])
       = min 2 (int (length (final_pool example_bank [] 2)))"
proof -
  have e: "fetch_batch_questions [0, 0] (Some example_bank) [] 2
     = Inr [example_card ''q1'', example_card ''q2'']" by code_simp
  have h: "(0::int) \<le> 2" by simp
  from fetch_batch_length[OF h, of "[0, 0]" example_bank "[]"] e show ?thesis by auto
qed

text \<open>
  The claim as stated fails: the bank has three records and two are in the history; a
  batch of two is requested. One fresh record is left, so the history is not reset and
  the batch has one record, whatever the random source.
\<close>

theorem fetch_batch_short_of_count:
  "\<forall>rs. fetch_batch_questions rs (Some example_bank) [''q1'', ''q2''] 2
     = Inr [example_card ''q3'']"
proof
  fix rs :: "nat list"
  have p: "final_pool example_bank [''q1'', ''q2''] 2 = [example_card ''q3'']"
    by code_simp
  have "sample rs [example_card ''q3''] (Suc 0) = [example_card ''q3'']"
    by (cases rs) simp_all
  with p show "fetch_batch_questions rs (Some example_bank) [''q1'', ''q2''] 2
     = Inr [example_card ''q3'']"
    by (simp add: fetch_batch_questions_def)
qed

theorem fetch_respects_history_witness:
  "relaxed_pool example_bank [''q1''] 1 \<noteq> []
   \<and> fetch_batch_questions [0] (Some example_bank) [''q1''] 1 = Inr [example_card ''q2'']
   \<and> card_id (example_card ''q2'') \<notin> set [''q1'']"
proof -
  have h1: "relaxed_pool example_bank [''q1''] 1 \<noteq> []" by code_simp
  have h2: "fetch_batch_questions [0] (Some example_bank) [''q1''] 1
     = Inr [example_card ''q2'']" by code_simp
  from fetch_respects_history[OF h1 h2] h1 h2 show ?thesis by simp
qed

theorem fetch_never_image_witness:
  "has_image ((example_card ''q1'')\<lparr>image := Some (JStr ''xray.png'')\<rparr>)
   \<and> fetch_batch_questions [0, 0]
        (Some [(example_card ''q1'')\<lparr>image := Some (JStr ''xray.png'')\<rparr>, example_card ''q2''])
        [''q1'', ''q2''] 2
       = Inr [example_card ''q2'']
   \<and> \<not> has_image (example_card ''q2'')"
proof -
  have h0: "has_image ((example_card ''q1'')\<lparr>image := Some (JStr ''xray.png'')\<rparr>)"
    by code_simp
  have h1: "fetch_batch_questions [0, 0]
        (Some [(example_card ''q1'')\<lparr>image := Some (JStr ''xray.png'')\<rparr>, example_card ''q2''])
        [''q1'', ''q2''] 2
       = Inr [example_card ''q2'']" by code_simp
  from fetch_never_image[of 2 "[0, 0]"
      "Some [(example_card ''q1'')\<lparr>image := Some (JStr ''xray.png'')\<rparr>, example_card ''q2'']"
      "[''q1'', ''q2'']"] h0 h1
  show ?thesis by simp
qed

section \<open>Properties of the rendered text blocks\<close>

lemma drawn_text_draw_answer: "map drawn_text (draw_answer y lines) = lines"
  by (induction lines arbitrary: y) (simp_all add: drawn_text_def)

lemma drawn_text_draw_centered: "map drawn_text (draw_centered fnt y h lines) = lines"
  by (induction lines arbitrary: y) (simp_all add: drawn_text_def Let_def)

lemma clamp_lines_take: "clamp_lines ls = take 3 ls"
  by (simp add: clamp_lines_def)

lemma length_draw_clipped:
  "0 < line_h \<Longrightarrow> curr_y \<le> cy2 - 40 \<Longrightarrow>
     int (length (draw_clipped curr_y line_h lines)) \<le> (cy2 - 40 - curr_y) div line_h"
proof (induction lines arbitrary: curr_y)
  case Nil
  then show ?case by (simp add: pos_imp_zdiv_nonneg_iff)
next
  case (Cons l ls)
  show ?case
  proof (cases "cy2 - 40 < curr_y + line_h")
    case True
    with Cons.prems show ?thesis by (simp add: pos_imp_zdiv_nonneg_iff)
  next
    case False
    then have le: "curr_y + line_h \<le> cy2 - 40" by simp
    from Cons.IH[OF Cons.prems(1) le]
    have "int (length (draw_clipped (curr_y + line_h) line_h ls))
        \<le> (cy2 - 40 - (curr_y + line_h)) div line_h" .
    moreover have "(cy2 - 40 - (curr_y + line_h)) div line_h + 1
        = (cy2 - 40 - curr_y) div line_h"
    proof -
      have "cy2 - 40 - curr_y = (cy2 - 40 - (curr_y + line_h)) + 1 * line_h" by simp
      then show ?thesis using Cons.prems(1)
        by (metis div_mult_self1 less_int_code(1) mult.commute add.commute)
    qed
    ultimately show ?thesis using False by simp
  qed
qed

lemma draw_clipped_prefix:
  "map drawn_text (draw_clipped curr_y line_h lines)
     = take (length (draw_clipped curr_y line_h lines)) lines"
  by (induction lines arbitrary: curr_y) (simp_all add: drawn_text_def)

text \<open>
  C6 (as amended). For every record rendered, in the back-face explanation block, whose
  first line is placed at \<open>expl_y_start + 50\<close>, with the panel's bottom edge \<open>cy2\<close>, the
  margin 40 and a positive line pitch \<open>p\<close>, the number of lines drawn is at most
  \<open>floor((cy2 - 40 - (expl_y_start + 50)) / p)\<close>, which is \<open>floor(570 / p)\<close>; the lines drawn
  are the first wrapped lines, the omitted ones are trailing.
\<close>

theorem explanation_lines_bound:
  assumes "render_card_back get_font c = Inr (answer_calls, expl_calls)"
    and "e = clean_text (get_str (explanation c) [])"
    and "p = bbox_bottom (getbbox (get_font (explanation_font_size e) Regular) ''Ay'') + 12"
    and "0 < p"
  shows "int (length expl_calls) \<le> (cy2 - 40 - (expl_y_start + 50)) div p
         \<and> (cy2 - 40 - (expl_y_start + 50)) div p = 570 div p
         \<and> (\<exists>expl_lines.
               wrap_text (Some e) (get_font (explanation_font_size e) Regular) (card_w - 120)
                 = Inr expl_lines
               \<and> map drawn_text expl_calls = take (length expl_calls) expl_lines)"
proof -
  let ?f = "get_font (explanation_font_size e) Regular"
  from assms(1) obtain ans_lines expl_lines where
    w: "wrap_text (Some e) ?f (card_w - 120) = Inr expl_lines"
    and x: "expl_calls = draw_clipped (expl_y_start + 50) p expl_lines"
    unfolding render_card_back_def Let_def assms(2,3)
    by (auto split: sum.splits)
  have top: "expl_y_start + 50 \<le> cy2 - 40"
    by (simp add: expl_y_start_def cy1_def cy2_def)
  have "int (length expl_calls) \<le> (cy2 - 40 - (expl_y_start + 50)) div p"
    unfolding x using assms(4) top by (rule length_draw_clipped)
  moreover have "cy2 - 40 - (expl_y_start + 50) = 570"
    by (simp add: expl_y_start_def cy1_def cy2_def)
  moreover have "map drawn_text expl_calls = take (length expl_calls) expl_lines"
    unfolding x by (rule draw_clipped_prefix)
  ultimately show ?thesis using w by simp
qed

text \<open>
  C7. The calls of the answer banner are at most three, and their strings are the first
  three wrapped lines of the cleaned answer (all of them when there are three or fewer).
\<close>

theorem answer_banner_three_lines:
  assumes "render_card_back get_font c = Inr (answer_calls, expl_calls)"
  shows "length answer_calls \<le> 3
         \<and> (\<exists>ans_lines.
               wrap_text (Some (clean_text (get_str (answer c) ''Answer''))) (get_font 54 Bold)
                   (card_w - 120) = Inr ans_lines
               \<and> map drawn_text answer_calls = take 3 ans_lines
               \<and> (3 < length ans_lines \<longrightarrow> length answer_calls = 3))"
proof -
  let ?a = "clean_text (get_str (answer c) ''Answer'')"
  from assms obtain ans_lines where
    w: "wrap_text (Some ?a) (get_font 54 Bold) (card_w - 120) = Inr ans_lines"
    and x: "answer_calls = draw_answer (cy1 + 90) (clamp_lines ans_lines)"
    unfolding render_card_back_def Let_def
    by (auto split: sum.splits)
  have m: "map drawn_text answer_calls = take 3 ans_lines"
    unfolding x by (simp add: drawn_text_draw_answer clamp_lines_take)
  then have "length answer_calls = length (take 3 ans_lines)" by (metis length_map)
  then have "length answer_calls \<le> 3" and "3 < length ans_lines \<longrightarrow> length answer_calls = 3"
    by simp_all
  with w m show ?thesis by blast
qed

theorem explanation_lines_bound_witness:
  "render_card_back example_fonts long_explanation_card
     = Inr ([(120, 310, ''Axillary nerve'')],
            [(120, 560, ''ventriculostomy''), (120, 610, ''ventriculostomy''),
             (120, 660, ''ventriculostomy''), (120, 710, ''ventriculostomy''),
             (120, 760, ''ventriculostomy''), (120, 810, ''ventriculostomy''),
             (120, 860, ''ventriculostomy''), (120, 910, ''ventriculostomy''),
             (120, 960, ''ventriculostomy''), (120, 1010, ''ventriculostomy''),
             (120, 1060, ''ventriculostomy'')])
   \<and> bbox_bottom (getbbox (example_fonts 38 Regular) ''Ay'') + 12 = 50
   \<and> (11::int) \<le> 570 div 50
   \<and> map_sum id length
        (wrap_text (Some (clean_text (get_str (explanation long_explanation_card) [])))
           (example_fonts 38 Regular) (card_w - 120)) = Inr 12"
proof -
  let ?e = "clean_text (get_str (explanation long_explanation_card) [])"
  let ?p = "bbox_bottom (getbbox (example_fonts (explanation_font_size ?e) Regular) ''Ay'') + 12"
  have h1: "render_card_back example_fonts long_explanation_card
     = Inr ([(120, 310, ''Axillary nerve'')],
            [(120, 560, ''ventriculostomy''), (120, 610, ''ventriculostomy''),
             (120, 660, ''ventriculostomy''), (120, 710, ''ventriculostomy''),
             (120, 760, ''ventriculostomy''), (120, 810, ''ventriculostomy''),
             (120, 860, ''ventriculostomy''), (120, 910, ''ventriculostomy''),
             (120, 960, ''ventriculostomy''), (120, 1010, ''ventriculostomy''),
             (120, 1060, ''ventriculostomy'')])"
    by code_simp
  have p: "?p = 50" by code_simp
  then have h4: "0 < ?p" by simp
  have q: "bbox_bottom (getbbox (example_fonts 38 Regular) ''Ay'') + 12 = 50"
    by (simp add: example_fonts_def fixed_font_def bbox_bottom_def)
  have w: "map_sum id length (wrap_text (Some ?e) (example_fonts 38 Regular) (card_w - 120))
     = Inr 12" by code_simp
  from explanation_lines_bound[OF h1 refl refl h4] p
  have "(11::int) \<le> 570 div 50" by simp
  with h1 q w show ?thesis by simp
qed

text \<open>
  The claim as stated fails on the front face, which draws every wrapped line: a
  question of 199 characters is set at size 58 with a line pitch of 73; the panel is 950
  pixels high and holds 13 lines at that pitch (the whole canvas of 1350 pixels, 18);
  twenty lines are drawn, the last below the canvas.
\<close>

theorem front_face_draws_every_line:
  "render_card_front example_fonts long_question_card
     = Inr [(279, - 35, ''ventricle''), (279, 38, ''ventricle''),
            (279, 111, ''ventricle''), (279, 184, ''ventricle''),
            (279, 257, ''ventricle''), (279, 330, ''ventricle''),
            (279, 403, ''ventricle''), (279, 476, ''ventricle''),
            (279, 549, ''ventricle''), (279, 622, ''ventricle''),
            (279, 695, ''ventricle''), (279, 768, ''ventricle''),
            (279, 841, ''ventricle''), (279, 914, ''ventricle''),
            (279, 987, ''ventricle''), (279, 1060, ''ventricle''),
            (279, 1133, ''ventricle''), (279, 1206, ''ventricle''),
            (279, 1279, ''ventricle''), (279, 1352, ''ventricle'')]
   \<and> bbox_bottom (getbbox (example_fonts 58 Bold) ''Ay'') + 15 = 73
   \<and> card_h div 73 = 13 \<and> (1350::int) div 73 = 18"
  by code_simp

theorem answer_banner_three_lines_witness:
  "wrap_text (Some (clean_text (get_str (answer long_answer_card) ''Answer'')))
        (example_fonts 54 Bold) (card_w - 120)
     = Inr [''Axillary nerve'', ''from the'', ''posterior cord of'', ''the plexus'']
   \<and> render_card_back example_fonts long_answer_card
     = Inr ([(120, 310, ''Axillary nerve''), (120, 370, ''from the''),
             (120, 430, ''posterior cord of'')],
            [(120, 560, ''The axillary nerve (C5,''),
             (120, 610, ''C6) leaves the posterior''), (120, 660, ''cord.'')])
   \<and> length [''Axillary nerve'', ''from the'', ''posterior cord of''] \<le> 3"
proof -
  have h1: "render_card_back example_fonts long_answer_card
     = Inr ([(120, 310, ''Axillary nerve''), (120, 370, ''from the''),
             (120, 430, ''posterior cord of'')],
            [(120, 560, ''The axillary nerve (C5,''),
             (120, 610, ''C6) leaves the posterior''), (120, 660, ''cord.'')])"
    by code_simp
  have w: "wrap_text (Some (clean_text (get_str (answer long_answer_card) ''Answer'')))
        (example_fonts 54 Bold) (card_w - 120)
     = Inr [''Axillary nerve'', ''from the'', ''posterior cord of'', ''the plexus'']"
    by code_simp
  from answer_banner_three_lines[OF h1] w h1 show ?thesis by simp
qed

end
